theory Spec2Isabelle
  imports Main "HOL-Library.Multiset"
begin

section \<open>Secret Santa solver: the matcher and its retry driver\<close>

text \<open>
  A shallow embedding of \<^verbatim>\<open>solve\<close> and of the retry loop of the \<^verbatim>\<open>__main__\<close> block of
  \<^verbatim>\<open>solver.py\<close>.

  A participant is a dictionary with the two string keys \<^verbatim>\<open>name\<close> and \<^verbatim>\<open>email\<close> (the
  settings schema admits no other key). Python compares dictionaries with \<^verbatim>\<open>==\<close> key by key,
  which is the equality of the record below.
\<close>

subsection \<open>Data\<close>

record participant =
  name :: string
  email :: string

text \<open>A pair is the two-element list \<^verbatim>\<open>[giver, receiver]\<close>.\<close>

type_synonym pair = "participant \<times> participant"

text \<open>
  The exceptions that the modelled code can raise. \<^verbatim>\<open>DeadEndException\<close> is the repository's
  own; \<^verbatim>\<open>AssertionError\<close> comes from the two \<^verbatim>\<open>assert\<close> statements, \<^verbatim>\<open>IndexError\<close> from
  \<^verbatim>\<open>random.choice\<close> on an empty list and \<^verbatim>\<open>ValueError\<close> from \<^verbatim>\<open>list.remove\<close> of an absent
  element.
\<close>

datatype error =
    DeadEndException string
  | AssertionError string
  | IndexError
  | ValueError

subsection \<open>The random source\<close>

text \<open>
  The module-level generator of \<^verbatim>\<open>random\<close> is the only state that \<^verbatim>\<open>solve\<close> shares with its
  caller. It is modelled as a fixed infinite sequence \<open>g\<close> of naturals and a cursor \<open>k\<close> into
  it: the \<open>k\<close>-th request for a number below \<open>n\<close> is answered by \<open>g k mod n\<close>, and the cursor
  moves on by one. Every answer the library can give is \<open>g k mod n\<close> for some \<open>g\<close>.
\<close>

type_synonym rng = "nat \<Rightarrow> nat"

definition randbelow :: "rng \<Rightarrow> nat \<Rightarrow> nat \<Rightarrow> nat \<times> nat" where
  "randbelow g k n = (g k mod n, Suc k)"

text \<open>\<^verbatim>\<open>random.choice(seq)\<close>: one number below \<^verbatim>\<open>len(seq)\<close>; an empty sequence raises.\<close>

definition choice :: "rng \<Rightarrow> nat \<Rightarrow> 'a list \<Rightarrow> (error + 'a) \<times> nat" where
  "choice g k seq =
     (if seq = [] then (Inl IndexError, k)
      else case randbelow g k (length seq) of (i, k') \<Rightarrow> (Inr (seq ! i), k'))"

text \<open>
  \<^verbatim>\<open>random.shuffle(x)\<close>, the library's in-place exchange loop:
  \<^verbatim>\<open>for i in reversed(range(1, len(x))): j = randbelow(i + 1); x[i], x[j] = x[j], x[i]\<close>.
  The last argument of \<open>shuffle_loop\<close> is the index \<open>i\<close>, counting down to 1.
\<close>

fun shuffle_loop :: "rng \<Rightarrow> nat \<Rightarrow> 'a list \<Rightarrow> nat \<Rightarrow> 'a list \<times> nat" where
  "shuffle_loop g k x 0 = (x, k)"
| "shuffle_loop g k x (Suc m) =
     (case randbelow g k (Suc m + 1) of
        (j, k') \<Rightarrow> shuffle_loop g k' (x[Suc m := x ! j, j := x ! Suc m]) m)"

definition shuffle :: "rng \<Rightarrow> nat \<Rightarrow> 'a list \<Rightarrow> 'a list \<times> nat" where
  "shuffle g k x = shuffle_loop g k x (length x - 1)"

text \<open>\<^verbatim>\<open>list.remove(v)\<close>: drops the first element equal to \<^verbatim>\<open>v\<close>, raises if there is none.\<close>

definition list_remove :: "'a \<Rightarrow> 'a list \<Rightarrow> error + 'a list" where
  "list_remove v xs = (if v \<in> set xs then Inr (remove1 v xs) else Inl ValueError)"

subsection \<open>The matcher\<close>

text \<open>
  The \<^verbatim>\<open>while True\<close> loop of one giver. It draws until the candidate differs from the giver,
  and raises when the candidate is the giver and the pool has one element. Nothing bounds the
  number of draws, so the loop is a partial function: \<open>None\<close> is a run that draws the giver
  for ever. On success the candidate is returned; the caller appends the pair and removes the
  candidate from the pool.
\<close>

partial_function (option) draw_loop ::
  "rng \<Rightarrow> nat \<Rightarrow> participant \<Rightarrow> participant list \<Rightarrow> ((error + participant) \<times> nat) option"
where
  "draw_loop g k giver receivers =
     (case choice g k receivers of
        (Inl e, k') \<Rightarrow> Some (Inl e, k')
      | (Inr receiver, k') \<Rightarrow>
          if receiver = giver then
            if length receivers = 1
            then Some (Inl (DeadEndException ''Hit a dead-end while solving''), k')
            else draw_loop g k' giver receivers
          else Some (Inr receiver, k'))"

declare draw_loop.simps [code]

text \<open>
  The \<^verbatim>\<open>for giver in givers\<close> loop, with the two lists it updates (\<^verbatim>\<open>pairs\<close> and
  \<^verbatim>\<open>receivers\<close>) passed along and returned.
\<close>

fun pair_loop ::
  "rng \<Rightarrow> nat \<Rightarrow> participant list \<Rightarrow> participant list \<Rightarrow> pair list \<Rightarrow>
   ((error + pair list \<times> participant list) \<times> nat) option"
where
  "pair_loop g k [] receivers pairs = Some (Inr (pairs, receivers), k)"
| "pair_loop g k (giver # givers) receivers pairs =
     (case draw_loop g k giver receivers of
        None \<Rightarrow> None
      | Some (Inl e, k') \<Rightarrow> Some (Inl e, k')
      | Some (Inr receiver, k') \<Rightarrow>
          (case list_remove receiver receivers of
             Inl e \<Rightarrow> Some (Inl e, k')
           | Inr receivers' \<Rightarrow> pair_loop g k' givers receivers' (pairs @ [(giver, receiver)])))"

text \<open>The inner loop of the paranoia test: the two counters of one person.\<close>

fun count_loop :: "participant \<Rightarrow> pair list \<Rightarrow> nat \<Rightarrow> nat \<Rightarrow> nat \<times> nat" where
  "count_loop person [] giveCount receiveCount = (giveCount, receiveCount)"
| "count_loop person (pair # pairs) giveCount receiveCount =
     count_loop person pairs
       (if name (fst pair) = name person then giveCount + 1 else giveCount)
       (if name (snd pair) = name person then receiveCount + 1 else receiveCount)"

text \<open>The paranoia test: \<open>None\<close> when both assertions hold for every person.\<close>

fun paranoia_test :: "participant list \<Rightarrow> pair list \<Rightarrow> error option" where
  "paranoia_test [] pairs = None"
| "paranoia_test (person # persons) pairs =
     (case count_loop person pairs 0 0 of
        (giveCount, receiveCount) \<Rightarrow>
          if giveCount \<noteq> 1
          then Some (AssertionError ''Each person should be a giver exactly once'')
          else if receiveCount \<noteq> 1
          then Some (AssertionError ''Each person should be a receiver exactly once'')
          else paranoia_test persons pairs)"

text \<open>
  \<^verbatim>\<open>solve\<close>. The two deep copies are values here, so \<open>givers\<close> and \<open>receivers\<close> both start
  as the argument. The result is the raised exception or the returned list, with the cursor
  of the random source after the call.
\<close>

definition solve ::
  "rng \<Rightarrow> nat \<Rightarrow> participant list \<Rightarrow> ((error + pair list) \<times> nat) option"
where
  "solve g k participants =
     (let givers = participants;
          receivers = participants
      in case shuffle g k receivers of
        (receivers, k1) \<Rightarrow>
          (case pair_loop g k1 givers receivers [] of
             None \<Rightarrow> None
           | Some (Inl e, k2) \<Rightarrow> Some (Inl e, k2)
           | Some (Inr (pairs, _), k2) \<Rightarrow>
               (case paranoia_test participants pairs of
                  Some e \<Rightarrow> Some (Inl e, k2)
                | None \<Rightarrow> Some (Inr pairs, k2))))"

subsection \<open>The retry driver\<close>

text \<open>
  The state of the \<^verbatim>\<open>else\<close> branch of the \<^verbatim>\<open>__main__\<close> block: the counter \<^verbatim>\<open>attempts\<close>, the
  pair lists handed to \<^verbatim>\<open>send_emails\<close> (one entry per call), and the lines the block itself
  prints. The field \<open>calls\<close> is not in the source: it records, for every call of \<^verbatim>\<open>solve\<close>,
  the argument and the cursor of the random source at the call, so that the calls can be
  counted and compared.
\<close>

record run_state =
  attempts :: nat
  sent :: "pair list list"
  printed :: "string list"
  calls :: "(participant list \<times> nat) list"

definition max_attempts :: nat where
  "max_attempts = 20"

text \<open>
  \<^verbatim>\<open>send_emails\<close> is the delivery step. It renders and sends mail and catches the transport's
  own exceptions; it never raises \<^verbatim>\<open>DeadEndException\<close>. Only the hand-over of the pairs is
  modelled.
\<close>

definition send_emails :: "pair list \<Rightarrow> run_state \<Rightarrow> run_state" where
  "send_emails pairs st = st\<lparr>sent := sent st @ [pairs]\<rparr>"

text \<open>
  The \<^verbatim>\<open>for _ in range(max_attempts)\<close> loop; the fourth argument counts the iterations that
  are left. \<^verbatim>\<open>DeadEndException\<close> is caught and the loop continues; any other exception leaves
  the program, and a returned pairing is sent before the \<^verbatim>\<open>break\<close>. The result is the uncaught
  exception, if any, with the state and the cursor.
\<close>

fun retry_loop ::
  "rng \<Rightarrow> nat \<Rightarrow> participant list \<Rightarrow> nat \<Rightarrow> run_state \<Rightarrow>
   ((error option \<times> run_state) \<times> nat) option"
where
  "retry_loop g k participants 0 st = Some ((None, st), k)"
| "retry_loop g k participants (Suc n) st =
     (let st1 = st\<lparr>attempts := attempts st + 1, calls := calls st @ [(participants, k)]\<rparr>
      in case solve g k participants of
        None \<Rightarrow> None
      | Some (Inl (DeadEndException m), k') \<Rightarrow>
          retry_loop g k' participants n
            (st1\<lparr>printed := printed st1 @ [''Failed to solve, retrying...'']\<rparr>)
      | Some (Inl e, k') \<Rightarrow> Some ((Some e, st1), k')
      | Some (Inr pairs, k') \<Rightarrow> Some ((None, send_emails pairs st1), k'))"

text \<open>The branch as a whole: the loop, then the two closing \<^verbatim>\<open>print\<close> calls.\<close>

definition run_main ::
  "rng \<Rightarrow> nat \<Rightarrow> participant list \<Rightarrow> ((error option \<times> run_state) \<times> nat) option"
where
  "run_main g k participants =
     (case retry_loop g k participants max_attempts
             \<lparr>attempts = 0, sent = [], printed = [], calls = []\<rparr> of
        None \<Rightarrow> None
      | Some ((Some e, st), k') \<Rightarrow> Some ((Some e, st), k')
      | Some ((None, st), k') \<Rightarrow>
          Some ((None, st\<lparr>printed := printed st @ ['''', ''Finished!'']\<rparr>), k'))"

text \<open>
  Two predicates for stating what the driver does. \<open>all_dead_end g k ps n\<close>: the next \<open>n\<close>
  attempts, the first at cursor \<open>k\<close> and each next one where the previous left the random
  source, all raise \<^verbatim>\<open>DeadEndException\<close>. \<open>retried g ps cs k'\<close>: every entry of the call list
  \<open>cs\<close> is a call on \<open>ps\<close>; every call but the last raised \<^verbatim>\<open>DeadEndException\<close> and left the
  cursor where the next call starts; the last call ended at cursor \<open>k'\<close>.
\<close>

fun all_dead_end :: "rng \<Rightarrow> nat \<Rightarrow> participant list \<Rightarrow> nat \<Rightarrow> bool" where
  "all_dead_end g k ps 0 = True"
| "all_dead_end g k ps (Suc n) =
     (case solve g k ps of
        Some (Inl (DeadEndException m), k') \<Rightarrow> all_dead_end g k' ps n
      | _ \<Rightarrow> False)"

fun retried :: "rng \<Rightarrow> participant list \<Rightarrow> (participant list \<times> nat) list \<Rightarrow> nat \<Rightarrow> bool" where
  "retried g ps [] k' = False"
| "retried g ps [c] k' =
     (fst c = ps \<and> (case solve g (snd c) ps of Some (res, k1) \<Rightarrow> k1 = k' | None \<Rightarrow> False))"
| "retried g ps (c # d # cs) k' =
     (fst c = ps \<and>
      (case solve g (snd c) ps of
         Some (Inl (DeadEndException m), k1) \<Rightarrow> k1 = snd d
       | _ \<Rightarrow> False) \<and>
      retried g ps (d # cs) k')"

text \<open>
  \<open>last_attempt res err new_sent bound_reached\<close>: what the driver makes of the outcome \<open>res\<close>
  of its last call. A returned pairing is sent and nothing is raised; a dead end is caught,
  nothing is sent, and it is the last call only if the bound is reached; any other exception
  leaves the program and nothing is sent.
\<close>

definition last_attempt ::
  "error + pair list \<Rightarrow> error option \<Rightarrow> pair list list \<Rightarrow> bool \<Rightarrow> bool" where
  "last_attempt res err new_sent bound_reached =
     (case res of
        Inr pairs \<Rightarrow> err = None \<and> new_sent = [pairs]
      | Inl (DeadEndException m) \<Rightarrow> err = None \<and> new_sent = [] \<and> bound_reached
      | Inl e \<Rightarrow> err = Some e \<and> new_sent = [])"

subsection \<open>Example inputs\<close>

text \<open>Three participants with different names, and some random sources.\<close>

definition alice :: participant where "alice = \<lparr>name = ''Alice'', email = ''alice@example.org''\<rparr>"
definition bob :: participant where "bob = \<lparr>name = ''Bob'', email = ''bob@example.org''\<rparr>"
definition carol :: participant where "carol = \<lparr>name = ''Carol'', email = ''carol@example.org''\<rparr>"
definition zero_rng :: rng where "zero_rng k = 0"
definition dead_end_rng :: rng where "dead_end_rng k = [2, 1, 1, 0, 0] ! (k mod 5)"
definition other_rng :: rng where
  "other_rng k = (if k < 5 then [2, 1, 1, 0, 0] ! k else 7)"
definition retry_rng :: rng where
  "retry_rng k = (if k < 5 then [2, 1, 1, 0, 0] ! k else 0)"


subsection \<open>The matcher on a store\<close>

text \<open>
  A second embedding of \<^verbatim>\<open>solve\<close>, for the question of what it may change in its caller's
  data. Python lists and dictionaries are objects reached through references, so the store
  has the dictionary objects and the list objects, each kind by address; a list object holds
  the addresses of its elements. An address is an index into the store, and a new object is
  allocated at the end. The list \<^verbatim>\<open>pairs\<close> is created by \<^verbatim>\<open>solve\<close> itself and is kept as a
  local list of address pairs.
\<close>

type_synonym ref = nat

record heap =
  dict_objs :: "participant list"
  list_objs :: "ref list list"

definition deref :: "heap \<Rightarrow> ref list \<Rightarrow> participant list" where
  "deref h rs = map (\<lambda>r. dict_objs h ! r) rs"

definition deref_pair :: "heap \<Rightarrow> ref \<times> ref \<Rightarrow> pair" where
  "deref_pair h p = (dict_objs h ! fst p, dict_objs h ! snd p)"

text \<open>
  The input is well formed when the participants' address is a list object whose elements
  are addresses of dictionary objects.
\<close>

definition wf_heap :: "heap \<Rightarrow> ref \<Rightarrow> bool" where
  "wf_heap h p = (p < length (list_objs h) \<and> list_all (\<lambda>r. r < length (dict_objs h)) (list_objs h ! p))"

text \<open>
  \<^verbatim>\<open>copy.deepcopy\<close> of a list of dictionaries: every dictionary is copied into a new object,
  once (the memo maps an address already copied to its copy), and a new list object holds the
  copies. The strings inside are immutable and are shared.
\<close>

fun deepcopy_elems ::
  "heap \<Rightarrow> (ref \<times> ref) list \<Rightarrow> ref list \<Rightarrow> ref list \<times> heap \<times> (ref \<times> ref) list" where
  "deepcopy_elems h memo [] = ([], h, memo)"
| "deepcopy_elems h memo (r # rs) =
     (case map_of memo r of
        Some r' \<Rightarrow>
          (case deepcopy_elems h memo rs of (rs', h', memo') \<Rightarrow> (r' # rs', h', memo'))
      | None \<Rightarrow>
          (case deepcopy_elems (h\<lparr>dict_objs := dict_objs h @ [dict_objs h ! r]\<rparr>)
                  ((r, length (dict_objs h)) # memo) rs of
             (rs', h', memo') \<Rightarrow> (length (dict_objs h) # rs', h', memo')))"

definition deepcopy :: "heap \<Rightarrow> ref \<Rightarrow> ref \<times> heap" where
  "deepcopy h p =
     (case deepcopy_elems h [] (list_objs h ! p) of
        (rs', h', memo') \<Rightarrow> (length (list_objs h'), h'\<lparr>list_objs := list_objs h' @ [rs']\<rparr>))"

text \<open>
  \<^verbatim>\<open>list.remove\<close> on a list of addresses: \<^verbatim>\<open>==\<close> on dictionaries compares their contents, so
  the first element with the contents of \<^verbatim>\<open>v\<close> goes.
\<close>

fun remove_h :: "heap \<Rightarrow> ref \<Rightarrow> ref list \<Rightarrow> error + ref list" where
  "remove_h h v [] = Inl ValueError"
| "remove_h h v (x # xs) =
     (if dict_objs h ! x = dict_objs h ! v then Inr xs
      else case remove_h h v xs of Inl e \<Rightarrow> Inl e | Inr xs' \<Rightarrow> Inr (x # xs'))"

text \<open>The draw loop reads the pool through its address; it changes nothing in the store.\<close>

partial_function (option) draw_loop_h ::
  "rng \<Rightarrow> nat \<Rightarrow> heap \<Rightarrow> ref \<Rightarrow> ref \<Rightarrow> ((error + ref) \<times> nat) option"
where
  "draw_loop_h g k h giver receivers =
     (case choice g k (list_objs h ! receivers) of
        (Inl e, k') \<Rightarrow> Some (Inl e, k')
      | (Inr receiver, k') \<Rightarrow>
          if dict_objs h ! receiver = dict_objs h ! giver then
            if length (list_objs h ! receivers) = 1
            then Some (Inl (DeadEndException ''Hit a dead-end while solving''), k')
            else draw_loop_h g k' h giver receivers
          else Some (Inr receiver, k'))"

declare draw_loop_h.simps [code]

text \<open>
  The giver loop: \<^verbatim>\<open>receivers.remove(receiver)\<close> is the one write, into the list object at
  the address \<open>receivers\<close>.
\<close>

fun pair_loop_h ::
  "rng \<Rightarrow> nat \<Rightarrow> heap \<Rightarrow> ref list \<Rightarrow> ref \<Rightarrow> (ref \<times> ref) list \<Rightarrow>
   ((error + (ref \<times> ref) list) \<times> heap \<times> nat) option"
where
  "pair_loop_h g k h [] receivers pairs = Some (Inr pairs, h, k)"
| "pair_loop_h g k h (giver # givers) receivers pairs =
     (case draw_loop_h g k h giver receivers of
        None \<Rightarrow> None
      | Some (Inl e, k') \<Rightarrow> Some (Inl e, h, k')
      | Some (Inr receiver, k') \<Rightarrow>
          (case remove_h h receiver (list_objs h ! receivers) of
             Inl e \<Rightarrow> Some (Inl e, h, k')
           | Inr xs \<Rightarrow>
               pair_loop_h g k' (h\<lparr>list_objs := (list_objs h)[receivers := xs]\<rparr>) givers receivers
                 (pairs @ [(giver, receiver)])))"

text \<open>
  \<^verbatim>\<open>solve\<close> on the store: two deep copies, the shuffle written into the second copy, the
  giver loop, and the paranoia test, which reads the caller's list and the paired
  dictionaries. The result comes with the store as \<^verbatim>\<open>solve\<close> leaves it.
\<close>

definition solve_h ::
  "rng \<Rightarrow> nat \<Rightarrow> heap \<Rightarrow> ref \<Rightarrow> ((error + (ref \<times> ref) list) \<times> heap \<times> nat) option"
where
  "solve_h g k h participants =
     (case deepcopy h participants of
        (givers, h1) \<Rightarrow>
          (case deepcopy h1 participants of
             (receivers, h2) \<Rightarrow>
               (case shuffle g k (list_objs h2 ! receivers) of
                  (xs, k1) \<Rightarrow>
                    (case pair_loop_h g k1 (h2\<lparr>list_objs := (list_objs h2)[receivers := xs]\<rparr>)
                            (list_objs h2 ! givers) receivers [] of
                       None \<Rightarrow> None
                     | Some (Inl e, h4, k2) \<Rightarrow> Some (Inl e, h4, k2)
                     | Some (Inr pairs, h4, k2) \<Rightarrow>
                         (case paranoia_test (deref h4 (list_objs h4 ! participants))
                                 (map (deref_pair h4) pairs) of
                            Some e \<Rightarrow> Some (Inl e, h4, k2)
                          | None \<Rightarrow> Some (Inr pairs, h4, k2))))))"

text \<open>
  \<open>unchanged h h'\<close>: every object of the store \<open>h\<close> is in \<open>h'\<close> at its address with its
  contents; \<open>h'\<close> may have more objects.
\<close>

definition unchanged :: "heap \<Rightarrow> heap \<Rightarrow> bool" where
  "unchanged h h' =
     (take (length (dict_objs h)) (dict_objs h') = dict_objs h \<and>
      take (length (list_objs h)) (list_objs h') = list_objs h)"

text \<open>
  Two conditions used when reasoning about the copies: \<open>in_store h rs\<close>, every address in
  \<open>rs\<close> is a dictionary object of \<open>h\<close>; \<open>memo_ok h memo\<close>, every entry of the memo maps a
  dictionary object to a dictionary object with the same contents.
\<close>

definition in_store :: "heap \<Rightarrow> ref list \<Rightarrow> bool" where
  "in_store h rs = list_all (\<lambda>r. r < length (dict_objs h)) rs"

definition memo_ok :: "heap \<Rightarrow> (ref \<times> ref) list \<Rightarrow> bool" where
  "memo_ok h memo =
     list_all (\<lambda>e. fst e < length (dict_objs h) \<and> snd e < length (dict_objs h) \<and>
                   dict_objs h ! snd e = dict_objs h ! fst e) memo"

definition heap0 :: heap where
  "heap0 = \<lparr>dict_objs = [alice, bob, carol], list_objs = [[0, 1, 2]]\<rparr>"

text \<open>What a result on the store stands for: the pairs with their dictionaries read.\<close>

definition abs_result ::
  "(error + (ref \<times> ref) list) \<times> heap \<times> nat \<Rightarrow> (error + pair list) \<times> nat" where
  "abs_result y = (case y of (res, h', k') \<Rightarrow> (map_sum id (map (deref_pair h')) res, k'))"

section \<open>Properties\<close>

subsection \<open>The draw loop\<close>

lemma choice_Nil: "choice g k [] = (Inl IndexError, k)"
  by (simp add: choice_def)

lemma choice_nonempty:
  "seq \<noteq> [] \<Longrightarrow> choice g k seq = (Inr (seq ! (g k mod length seq)), Suc k)"
  by (simp add: choice_def randbelow_def)

lemma draw_loop_unfold:
  "draw_loop g k giver receivers =
     (if receivers = [] then Some (Inl IndexError, k)
      else if receivers ! (g k mod length receivers) = giver then
        if length receivers = 1
        then Some (Inl (DeadEndException ''Hit a dead-end while solving''), Suc k)
        else draw_loop g (Suc k) giver receivers
      else Some (Inr (receivers ! (g k mod length receivers)), Suc k))"
  by (subst draw_loop.simps) (simp add: choice_Nil choice_nonempty)

lemma draw_loop_post:
  assumes "draw_loop g k giver receivers = Some y"
  shows "k \<le> snd y \<and>
    (case fst y of
       Inr r \<Rightarrow> r \<in> set receivers \<and> r \<noteq> giver \<and> k < snd y
     | Inl e \<Rightarrow> (e = IndexError \<and> receivers = [] \<and> snd y = k) \<or>
               (e = DeadEndException ''Hit a dead-end while solving'' \<and> receivers = [giver] \<and> snd y = Suc k))"
proof (rule draw_loop.raw_induct[where P = "\<lambda>g k giver receivers y. k \<le> snd y \<and>
    (case fst y of
       Inr r \<Rightarrow> r \<in> set receivers \<and> r \<noteq> giver \<and> k < snd y
     | Inl e \<Rightarrow> (e = IndexError \<and> receivers = [] \<and> snd y = k) \<or>
               (e = DeadEndException ''Hit a dead-end while solving'' \<and> receivers = [giver] \<and> snd y = Suc k))", OF _ assms], goal_cases)
  case (1 draw_loop' g k giver receivers y)
  show ?case
  proof (cases "receivers = []")
    case True
    with 1(2) show ?thesis by (auto simp: choice_Nil)
  next
    case False
    then have c: "choice g k receivers = (Inr (receivers ! (g k mod length receivers)), Suc k)"
      by (rule choice_nonempty)
    have inb: "g k mod length receivers < length receivers" using False by simp
    show ?thesis
    proof (cases "receivers ! (g k mod length receivers) = giver")
      case neq: False
      with 1(2) c inb show ?thesis by (auto)
    next
      case eq: True
      show ?thesis
      proof (cases "length receivers = 1")
        case True
        then obtain r where "receivers = [r]" by (cases receivers) auto
        with 1(2) c eq show ?thesis by auto
      next
        case len: False
        with 1(2) c eq have "draw_loop' g (Suc k) giver receivers = Some y" by simp
        from 1(1)[OF this] len \<open>receivers \<noteq> []\<close> show ?thesis by (auto split: sum.splits)
      qed
    qed
  qed
qed

lemma draw_loop_cong:
  assumes "draw_loop g k giver receivers = Some y"
  shows "\<forall>g'. (\<forall>i. k \<le> i \<and> i < snd y \<longrightarrow> g' i = g i) \<longrightarrow> draw_loop g' k giver receivers = Some y"
proof (rule draw_loop.raw_induct[where P = "\<lambda>g k giver receivers y. \<forall>g'. (\<forall>i. k \<le> i \<and> i < snd y \<longrightarrow> g' i = g i) \<longrightarrow> draw_loop g' k giver receivers = Some y", OF _ assms], goal_cases)
  case (1 draw_loop' g k giver receivers y)
  show ?case
  proof (intro allI impI)
    fix g' assume agree: "\<forall>i. k \<le> i \<and> i < snd y \<longrightarrow> g' i = g i"
    show "draw_loop g' k giver receivers = Some y"
    proof (cases "receivers = []")
      case True
      with 1(2) show ?thesis by (subst draw_loop_unfold) (auto simp: choice_Nil)
    next
      case False
      let ?r = "receivers ! (g k mod length receivers)"
      have body: "(if ?r = giver then
                     if length receivers = 1
                     then Some (Inl (DeadEndException ''Hit a dead-end while solving''), Suc k)
                     else draw_loop' g (Suc k) giver receivers
                   else Some (Inr ?r, Suc k)) = Some y"
        using 1(2) unfolding choice_nonempty[OF False] by simp
      show ?thesis
      proof (cases "?r = giver \<and> length receivers \<noteq> 1")
        case True
        with body have rec: "draw_loop' g (Suc k) giver receivers = Some y" by simp
        have all: "\<forall>g'. (\<forall>i. Suc k \<le> i \<and> i < snd y \<longrightarrow> g' i = g i) \<longrightarrow> draw_loop g' (Suc k) giver receivers = Some y"
          using 1(1)[OF rec] .
        then have "draw_loop g (Suc k) giver receivers = Some y" by simp
        from draw_loop_post[OF this] have "Suc k \<le> snd y" by simp
        then have gk: "g' k = g k" using agree by simp
        from agree have "\<forall>i. Suc k \<le> i \<and> i < snd y \<longrightarrow> g' i = g i" by simp
        with all have "draw_loop g' (Suc k) giver receivers = Some y" by blast
        with True False gk show ?thesis by (subst draw_loop_unfold) simp
      next
        case stop: False
        with body have y: "y = (if ?r = giver then (Inl (DeadEndException ''Hit a dead-end while solving''), Suc k) else (Inr ?r, Suc k))"
          by (simp split: if_splits)
        then have "snd y = Suc k" by simp
        then have gk: "g' k = g k" using agree by simp
        from stop y False gk show ?thesis
          by (subst draw_loop_unfold) simp
      qed
    qed
  qed
qed

lemma draw_loop_dead_end_iff:
  "draw_loop g k giver receivers = Some (Inl (DeadEndException m), k') \<longleftrightarrow>
     receivers = [giver] \<and> k' = Suc k \<and> m = ''Hit a dead-end while solving''"
proof
  assume "draw_loop g k giver receivers = Some (Inl (DeadEndException m), k')"
  from draw_loop_post[OF this] show "receivers = [giver] \<and> k' = Suc k \<and> m = ''Hit a dead-end while solving''"
    by simp
next
  assume "receivers = [giver] \<and> k' = Suc k \<and> m = ''Hit a dead-end while solving''"
  then show "draw_loop g k giver receivers = Some (Inl (DeadEndException m), k')"
    by (subst draw_loop_unfold) simp
qed

lemma list_remove_mem: "v \<in> set xs \<Longrightarrow> list_remove v xs = Inr (remove1 v xs)"
  by (simp add: list_remove_def)

subsection \<open>The giver loop, the shuffle and the paranoia test\<close>

lemma pair_loop_step:
  assumes a: "pair_loop g k (giver # givers) receivers pairs = Some (Inr out, k')"
  shows "\<exists>r k1. draw_loop g k giver receivers = Some (Inr r, k1) \<and> r \<in> set receivers \<and> r \<noteq> giver \<and> k < k1 \<and>
     pair_loop g k1 givers (remove1 r receivers) (pairs @ [(giver, r)]) = Some (Inr out, k')"
proof (cases "draw_loop g k giver receivers")
  case None
  with a show ?thesis by simp
next
  case (Some y)
  obtain res k1 where y: "y = (res, k1)" by (cases y)
  show ?thesis
  proof (cases res)
    case (Inl e)
    with a Some y show ?thesis by simp
  next
    case (Inr r)
    with Some y have d: "draw_loop g k giver receivers = Some (Inr r, k1)" by simp
    from draw_loop_post[OF d] have m: "r \<in> set receivers" "r \<noteq> giver" "k < k1" by simp_all
    from a d m(1) have "pair_loop g k1 givers (remove1 r receivers) (pairs @ [(giver, r)]) = Some (Inr out, k')"
      by (simp add: list_remove_mem)
    with d m show ?thesis by blast
  qed
qed

lemma pair_loop_post:
  "pair_loop g k givers receivers pairs = Some (Inr (pairs', receivers'), k') \<Longrightarrow>
   \<exists>new. pairs' = pairs @ new \<and> map fst new = givers \<and> (\<forall>p \<in> set new. fst p \<noteq> snd p) \<and>
     mset (map snd new) + mset receivers' = mset receivers \<and> k \<le> k'"
proof (induction givers arbitrary: k receivers pairs)
  case Nil
  then show ?case by simp
next
  case (Cons giver givers)
  from pair_loop_step[OF Cons.prems] obtain r k1 where
    r: "r \<in> set receivers" "r \<noteq> giver" "k < k1" and
    rest: "pair_loop g k1 givers (remove1 r receivers) (pairs @ [(giver, r)]) = Some (Inr (pairs', receivers'), k')"
    by blast
  from Cons.IH[OF rest] obtain new where
    new: "pairs' = (pairs @ [(giver, r)]) @ new" "map fst new = givers" "\<forall>p \<in> set new. fst p \<noteq> snd p"
      "mset (map snd new) + mset receivers' = mset (remove1 r receivers)" "k1 \<le> k'"
    by blast
  let ?new = "(giver, r) # new"
  have 1: "pairs' = pairs @ ?new" using new(1) by simp
  have 2: "map fst ?new = giver # givers" using new(2) by simp
  have 3: "\<forall>p \<in> set ?new. fst p \<noteq> snd p" using new(3) r(2) by simp
  have "mset (map snd ?new) + mset receivers' = add_mset r (mset (remove1 r receivers))"
    using new(4) by simp
  also have "\<dots> = mset receivers" using r(1) by simp
  finally have 4: "mset (map snd ?new) + mset receivers' = mset receivers" .
  have 5: "k \<le> k'" using r(3) new(5) by simp
  show ?case by (intro exI[of _ ?new] conjI) (rule 1 2 3 4 5)+
qed

lemma shuffle_loop_post:
  "m < length x \<or> m = 0 \<Longrightarrow> shuffle_loop g k x m = (y, k') \<Longrightarrow> mset y = mset x \<and> k' = k + m"
proof (induction m arbitrary: k x)
  case 0
  then show ?case by simp
next
  case (Suc m)
  let ?j = "g k mod (Suc m + 1)"
  let ?x = "x[Suc m := x ! ?j, ?j := x ! Suc m]"
  from Suc.prems(1) have lt: "Suc m < length x" by simp
  have "?j < Suc m + 1" by (rule mod_less_divisor) simp
  then have j: "?j < length x" using lt by linarith
  from Suc.prems(2) have run: "shuffle_loop g (Suc k) ?x m = (y, k')" by (simp add: randbelow_def)
  have len: "m < length ?x \<or> m = 0" using lt by simp
  from Suc.IH[OF len run] have ih: "mset y = mset ?x" "k' = Suc k + m" by simp_all
  have "mset ?x = mset x" using j lt by (rule mset_swap)
  with ih show ?case by simp
qed

lemma shuffle_post: "shuffle g k x = (y, k') \<Longrightarrow> mset y = mset x \<and> k' = k + (length x - 1)"
proof -
  assume a: "shuffle g k x = (y, k')"
  have "length x - 1 < length x \<or> length x - 1 = 0" by (cases x) simp_all
  from shuffle_loop_post[OF this] a show ?thesis by (simp add: shuffle_def)
qed

lemma count_loop_eq:
  "count_loop person pairs a b =
     (a + length (filter (\<lambda>p. name (fst p) = name person) pairs),
      b + length (filter (\<lambda>p. name (snd p) = name person) pairs))"
  by (induction pairs arbitrary: a b) simp_all

lemma paranoia_test_None_iff:
  "paranoia_test persons pairs = None \<longleftrightarrow>
     (\<forall>person \<in> set persons.
        length (filter (\<lambda>p. name (fst p) = name person) pairs) = 1 \<and>
        length (filter (\<lambda>p. name (snd p) = name person) pairs) = 1)"
  by (induction persons) (simp_all add: count_loop_eq)

lemma paranoia_test_Some:
  "paranoia_test persons pairs = Some e \<Longrightarrow> \<exists>m. e = AssertionError m"
  by (induction persons) (auto simp: count_loop_eq split: if_splits)

lemma length_filter_count:
  "length (filter (\<lambda>p. f p = n) xs) = count (mset (map f xs)) n"
  by (induction xs) simp_all

lemma names_once:
  assumes "distinct (map name S)" and "mset (map h pairs) = mset S" and "person \<in> set S"
  shows "length (filter (\<lambda>p. name (h p) = name person) pairs) = 1"
proof -
  have "mset (map (\<lambda>p. name (h p)) pairs) = image_mset name (mset (map h pairs))"
    by (simp add: multiset.map_comp comp_def)
  also have "\<dots> = image_mset name (mset S)" by (simp only: assms(2))
  also have "\<dots> = mset (map name S)" by simp
  finally have eq: "mset (map (\<lambda>p. name (h p)) pairs) = mset (map name S)" .
  have "name person \<in> set (map name S)" using assms(3) by simp
  with assms(1) have "count (mset (map name S)) (name person) = 1"
    by (simp add: distinct_count_atmost_1)
  with eq show ?thesis by (simp add: length_filter_count)
qed

lemma paranoia_test_passes:
  assumes "distinct (map name S)" and "map fst pairs = S" and "mset (map snd pairs) = mset S"
  shows "paranoia_test S pairs = None"
proof -
  have "mset (map fst pairs) = mset S" using assms(2) by simp
  then show ?thesis
    unfolding paranoia_test_None_iff
    using names_once[OF assms(1) _, of fst pairs] names_once[OF assms(1) assms(3)] by blast
qed

lemma paranoia_test_distinct_names:
  assumes "paranoia_test S pairs = None" and "map fst pairs = S"
  shows "distinct (map name S)"
proof -
  have eq: "map (\<lambda>p. name (fst p)) pairs = map name S"
    using assms(2) by (auto simp: comp_def)
  have "\<forall>n. count (mset (map name S)) n = (if n \<in> set (map name S) then 1 else 0)"
  proof (intro allI)
    fix n
    show "count (mset (map name S)) n = (if n \<in> set (map name S) then 1 else 0)"
    proof (cases "n \<in> set (map name S)")
      case True
      then obtain person where p: "person \<in> set S" "n = name person" by auto
      with assms(1) have "length (filter (\<lambda>q. name (fst q) = name person) pairs) = 1"
        by (simp add: paranoia_test_None_iff)
      then have "count (mset (map (\<lambda>q. name (fst q)) pairs)) (name person) = 1"
        by (simp add: length_filter_count)
      with eq p True show ?thesis by simp
    next
      case False
      then show ?thesis by (simp add: count_eq_zero_iff)
    qed
  qed
  then show ?thesis by (simp add: distinct_count_atmost_1)
qed

subsection \<open>The pairing that solve returns\<close>

lemma pair_loop_error:
  "pair_loop g k givers receivers pairs = Some (Inl e, k') \<Longrightarrow>
   e = IndexError \<or> e = DeadEndException ''Hit a dead-end while solving''"
proof (induction givers arbitrary: k receivers pairs)
  case Nil
  then show ?case by simp
next
  case (Cons giver givers)
  show ?case
  proof (cases "draw_loop g k giver receivers")
    case None
    with Cons.prems show ?thesis by simp
  next
    case (Some y)
    obtain res k1 where y: "y = (res, k1)" by (cases y)
    show ?thesis
    proof (cases res)
      case (Inl e')
      with Some y have d: "draw_loop g k giver receivers = Some (Inl e', k1)" by simp
      with Cons.prems have "e = e'" by simp
      with draw_loop_post[OF d] show ?thesis by auto
    next
      case (Inr r)
      with Some y have d: "draw_loop g k giver receivers = Some (Inr r, k1)" by simp
      from draw_loop_post[OF d] have "r \<in> set receivers" by simp
      with Cons.prems d have "pair_loop g k1 givers (remove1 r receivers) (pairs @ [(giver, r)]) = Some (Inl e, k')"
        by (simp add: list_remove_mem)
      then show ?thesis by (rule Cons.IH)
    qed
  qed
qed

lemma solve_Inr_D:
  assumes "solve g k S = Some (Inr pairs, k')"
  shows "\<exists>recv rest. shuffle g k S = (recv, k + (length S - 1)) \<and> mset recv = mset S \<and>
           pair_loop g (k + (length S - 1)) S recv [] = Some (Inr (pairs, rest), k') \<and>
           paranoia_test S pairs = None"
proof -
  obtain recv k1 where sh: "shuffle g k S = (recv, k1)" by (cases "shuffle g k S")
  from shuffle_post[OF sh] have p: "mset recv = mset S" "k1 = k + (length S - 1)" by simp_all
  from assms sh obtain rest where
    "pair_loop g k1 S recv [] = Some (Inr (pairs, rest), k')" "paranoia_test S pairs = None"
    by (auto simp: solve_def split: option.splits sum.splits prod.splits)
  with sh p show ?thesis by blast
qed

lemma pair_loop_all:
  assumes "pair_loop g k S recv [] = Some (Inr (pairs, rest), k')" and "mset recv = mset S"
  shows "map fst pairs = S \<and> mset (map snd pairs) = mset S \<and> rest = [] \<and>
         (\<forall>p \<in> set pairs. fst p \<noteq> snd p) \<and> k \<le> k'"
proof -
  from pair_loop_post[OF assms(1)] have
    1: "map fst pairs = S" and 2: "\<forall>p \<in> set pairs. fst p \<noteq> snd p" and
    3: "mset (map snd pairs) + mset rest = mset recv" and 4: "k \<le> k'"
    by auto
  from 1 have "length pairs = length S" by (metis length_map)
  moreover from 3 assms(2) have "size (mset (map snd pairs) + mset rest) = size (mset S)" by simp
  ultimately have "length rest = 0" by simp
  then have r: "rest = []" by simp
  with 3 assms(2) have "mset (map snd pairs) = mset S" by simp
  with 1 2 4 r show ?thesis by blast
qed

lemma solve_shape:
  assumes "solve g k S = Some (Inr pairs, k')"
  shows "map fst pairs = S \<and> mset (map snd pairs) = mset S \<and>
         (\<forall>p \<in> set pairs. fst p \<noteq> snd p) \<and> paranoia_test S pairs = None \<and> k \<le> k'"
proof -
  from solve_Inr_D[OF assms] obtain recv rest where
    m: "mset recv = mset S" and
    pl: "pair_loop g (k + (length S - 1)) S recv [] = Some (Inr (pairs, rest), k')" and
    pt: "paranoia_test S pairs = None"
    by blast
  from pair_loop_all[OF pl m] pt show ?thesis by simp
qed

lemma once_in_distinct:
  assumes "distinct S" and "mset xs = mset S" and "p \<in> set S"
  shows "length (filter (\<lambda>x. x = p) xs) = 1"
proof -
  have "length (filter (\<lambda>x. x = p) xs) = count (mset xs) p"
    using length_filter_count[of "\<lambda>x. x" p xs] by simp
  also have "\<dots> = count (mset S) p" by (simp only: assms(2))
  also have "\<dots> = 1" using assms(1,3) by (simp add: distinct_count_atmost_1)
  finally show ?thesis .
qed

text \<open>
  C3. For at least two participants with pairwise different names, a pairing that \<^verbatim>\<open>solve\<close>
  returns has as many pairs as there are participants; its givers are the participants in
  their order, its receivers are a permutation of them, and each participant is the giver of
  exactly one pair and the receiver of exactly one pair.
\<close>

theorem solve_complete:
  assumes "2 \<le> length S" and "distinct (map name S)" and "solve g k S = Some (Inr pairs, k')"
  shows "length pairs = length S \<and> map fst pairs = S \<and> mset (map snd pairs) = mset S \<and>
         (\<forall>p \<in> set S. length (filter (\<lambda>q. fst q = p) pairs) = 1 \<and>
                       length (filter (\<lambda>q. snd q = p) pairs) = 1)"
proof -
  from solve_shape[OF assms(3)] have
    f: "map fst pairs = S" and s: "mset (map snd pairs) = mset S" by simp_all
  from assms(2) have d: "distinct S" by (simp add: distinct_map)
  have len: "length pairs = length S" using f by (metis length_map)
  have once: "length (filter (\<lambda>q. fst q = p) pairs) = 1 \<and> length (filter (\<lambda>q. snd q = p) pairs) = 1"
    if "p \<in> set S" for p
  proof -
    have "mset (map fst pairs) = mset S" using f by simp
    from once_in_distinct[OF d this that] once_in_distinct[OF d s that]
    show ?thesis by (simp add: length_filter_map comp_def)
  qed
  from len f s once show ?thesis by blast
qed

theorem solve_complete_witness:
  "2 \<le> length [alice, bob, carol] \<and> distinct (map name [alice, bob, carol]) \<and>
   solve zero_rng 0 [alice, bob, carol] = Some (Inr [(alice, bob), (bob, carol), (carol, alice)], 5) \<and>
   length [(alice, bob), (bob, carol), (carol, alice)] = length [alice, bob, carol] \<and>
   length (filter (\<lambda>q. fst q = alice) [(alice, bob), (bob, carol), (carol, alice)]) = 1 \<and>
   length (filter (\<lambda>q. snd q = alice) [(alice, bob), (bob, carol), (carol, alice)]) = 1"
proof -
  have h1: "2 \<le> length [alice, bob, carol]" by simp
  have h2: "distinct (map name [alice, bob, carol])" by (simp add: alice_def bob_def carol_def)
  have h3: "solve zero_rng 0 [alice, bob, carol] = Some (Inr [(alice, bob), (bob, carol), (carol, alice)], 5)"
    by code_simp
  from solve_complete[OF h1 h2 h3] h1 h2 h3 show ?thesis by simp
qed

lemma solve_Inl_D:
  assumes "solve g k S = Some (Inl e, k')"
  shows "\<exists>recv. shuffle g k S = (recv, k + (length S - 1)) \<and> mset recv = mset S \<and>
           (pair_loop g (k + (length S - 1)) S recv [] = Some (Inl e, k') \<or>
            (\<exists>pairs rest. pair_loop g (k + (length S - 1)) S recv [] = Some (Inr (pairs, rest), k') \<and>
                          paranoia_test S pairs = Some e))"
proof -
  obtain recv k1 where sh: "shuffle g k S = (recv, k1)" by (cases "shuffle g k S")
  from shuffle_post[OF sh] have p: "mset recv = mset S" "k1 = k + (length S - 1)" by simp_all
  from assms sh have
    "pair_loop g k1 S recv [] = Some (Inl e, k') \<or>
     (\<exists>pairs rest. pair_loop g k1 S recv [] = Some (Inr (pairs, rest), k') \<and> paranoia_test S pairs = Some e)"
    by (auto simp: solve_def split: option.splits sum.splits prod.splits)
  with sh p show ?thesis by blast
qed

text \<open>
  C4. In every pair of a pairing that \<^verbatim>\<open>solve\<close> returns, the giver and the receiver are
  different participants; their names differ too, since the paranoia test has passed.
\<close>

theorem solve_no_self_pairing:
  assumes "solve g k S = Some (Inr pairs, k')" and "(giver, receiver) \<in> set pairs"
  shows "giver \<noteq> receiver \<and> name giver \<noteq> name receiver"
proof -
  from solve_shape[OF assms(1)] have
    f: "map fst pairs = S" and s: "mset (map snd pairs) = mset S" and
    ne: "\<forall>p \<in> set pairs. fst p \<noteq> snd p" and pt: "paranoia_test S pairs = None"
    by simp_all
  from ne assms(2) have 1: "giver \<noteq> receiver" by fastforce
  have "giver \<in> set (map fst pairs)" using assms(2) by force
  then have gi: "giver \<in> set S" by (simp only: f)
  have "receiver \<in> set (map snd pairs)" using assms(2) by force
  then have "receiver \<in># mset (map snd pairs)" by (simp only: set_mset_mset)
  then have ri: "receiver \<in> set S" by (simp only: s set_mset_mset)
  from paranoia_test_distinct_names[OF pt f] have "inj_on name (set S)"
    by (simp add: distinct_map)
  with gi ri 1 have "name giver \<noteq> name receiver" by (auto dest: inj_onD)
  with 1 show ?thesis by simp
qed

theorem solve_no_self_pairing_witness:
  "solve zero_rng 0 [alice, bob, carol] = Some (Inr [(alice, bob), (bob, carol), (carol, alice)], 5) \<and>
   (bob, carol) \<in> set [(alice, bob), (bob, carol), (carol, alice)] \<and>
   bob \<noteq> carol \<and> name bob \<noteq> name carol"
proof -
  have h1: "solve zero_rng 0 [alice, bob, carol] = Some (Inr [(alice, bob), (bob, carol), (carol, alice)], 5)"
    by code_simp
  have h2: "(bob, carol) \<in> set [(alice, bob), (bob, carol), (carol, alice)]" by simp
  from solve_no_self_pairing[OF h1 h2] h1 h2 show ?thesis by simp
qed

text \<open>
  C7. For at least two participants with pairwise different names, \<^verbatim>\<open>solve\<close> never raises
  an \<^verbatim>\<open>AssertionError\<close>, and the paranoia test run again on any pairing that \<^verbatim>\<open>solve\<close>
  returns passes.
\<close>

theorem paranoia_test_unreachable:
  assumes "2 \<le> length S" and "distinct (map name S)"
  shows "(\<forall>m k'. solve g k S \<noteq> Some (Inl (AssertionError m), k')) \<and>
         (\<forall>pairs k'. solve g k S = Some (Inr pairs, k') \<longrightarrow> paranoia_test S pairs = None)"
proof (intro conjI allI impI)
  fix m k'
  show "solve g k S \<noteq> Some (Inl (AssertionError m), k')"
  proof
    assume "solve g k S = Some (Inl (AssertionError m), k')"
    from solve_Inl_D[OF this] obtain recv where
      m: "mset recv = mset S" and
      c: "pair_loop g (k + (length S - 1)) S recv [] = Some (Inl (AssertionError m), k') \<or>
          (\<exists>pairs rest. pair_loop g (k + (length S - 1)) S recv [] = Some (Inr (pairs, rest), k') \<and>
                        paranoia_test S pairs = Some (AssertionError m))"
      by blast
    from c show False
    proof
      assume "pair_loop g (k + (length S - 1)) S recv [] = Some (Inl (AssertionError m), k')"
      from pair_loop_error[OF this] show False by simp
    next
      assume "\<exists>pairs rest. pair_loop g (k + (length S - 1)) S recv [] = Some (Inr (pairs, rest), k') \<and>
                        paranoia_test S pairs = Some (AssertionError m)"
      then obtain pairs rest where
        pl: "pair_loop g (k + (length S - 1)) S recv [] = Some (Inr (pairs, rest), k')" and
        pt: "paranoia_test S pairs = Some (AssertionError m)"
        by blast
      from pair_loop_all[OF pl m] have "map fst pairs = S" "mset (map snd pairs) = mset S"
        by simp_all
      from paranoia_test_passes[OF assms(2) this] pt show False by simp
    qed
  qed
next
  fix pairs k'
  assume "solve g k S = Some (Inr pairs, k')"
  from solve_shape[OF this] show "paranoia_test S pairs = None" by simp
qed

theorem paranoia_test_unreachable_witness:
  "2 \<le> length [alice, bob, carol] \<and> distinct (map name [alice, bob, carol]) \<and>
   solve zero_rng 0 [alice, bob, carol] = Some (Inr [(alice, bob), (bob, carol), (carol, alice)], 5) \<and>
   paranoia_test [alice, bob, carol] [(alice, bob), (bob, carol), (carol, alice)] = None"
proof -
  have h1: "2 \<le> length [alice, bob, carol]" by simp
  have h2: "distinct (map name [alice, bob, carol])" by (simp add: alice_def bob_def carol_def)
  have h3: "solve zero_rng 0 [alice, bob, carol] = Some (Inr [(alice, bob), (bob, carol), (carol, alice)], 5)"
    by code_simp
  from paranoia_test_unreachable[OF h1 h2, of zero_rng 0] h1 h2 h3 show ?thesis by blast
qed

subsection \<open>Inputs below the precondition\<close>

text \<open>
  C10. On the empty participant list \<^verbatim>\<open>solve\<close> returns the empty pairing and draws nothing;
  on a list of one participant it raises \<^verbatim>\<open>DeadEndException\<close> after one draw, whatever
  the random source answers, so it never returns a pairing there.
\<close>

theorem solve_below_precondition:
  "solve g k [] = Some (Inr [], k) \<and>
   solve g k [p] = Some (Inl (DeadEndException ''Hit a dead-end while solving''), Suc k)"
proof
  show "solve g k [] = Some (Inr [], k)"
    by (simp add: solve_def shuffle_def)
  have "draw_loop g k p [p] = Some (Inl (DeadEndException ''Hit a dead-end while solving''), Suc k)"
    by (subst draw_loop_unfold) simp
  then show "solve g k [p] = Some (Inl (DeadEndException ''Hit a dead-end while solving''), Suc k)"
    by (simp add: solve_def shuffle_def)
qed

subsection \<open>Two participants\<close>

lemma draw_loop_terminates:
  "receivers \<noteq> [] \<Longrightarrow> receivers ! (g (k + n) mod length receivers) \<noteq> giver \<Longrightarrow>
   \<exists>y. draw_loop g k giver receivers = Some y"
proof (induction n arbitrary: k)
  case 0
  then show ?case by (subst draw_loop_unfold) simp
next
  case (Suc n)
  from Suc.prems(2) have "receivers ! (g (Suc k + n) mod length receivers) \<noteq> giver" by simp
  from Suc.IH[OF Suc.prems(1) this] obtain y where "draw_loop g (Suc k) giver receivers = Some y" ..
  with Suc.prems(1) show ?case by (subst draw_loop_unfold) simp
qed

lemma draw_loop_last_draw:
  assumes "draw_loop g k giver receivers = Some y"
  shows "\<forall>r. fst y = Inr r \<longrightarrow> k < snd y \<and> r = receivers ! (g (snd y - 1) mod length receivers)"
proof (rule draw_loop.raw_induct[where P = "\<lambda>g k giver receivers y.
    \<forall>r. fst y = Inr r \<longrightarrow> k < snd y \<and> r = receivers ! (g (snd y - 1) mod length receivers)", OF _ assms], goal_cases)
  case (1 draw_loop' g k giver receivers y)
  show ?case
  proof (cases "receivers = []")
    case True
    with 1(2) show ?thesis by (auto simp: choice_Nil)
  next
    case False
    let ?r = "receivers ! (g k mod length receivers)"
    have body: "(if ?r = giver then
                   if length receivers = 1
                   then Some (Inl (DeadEndException ''Hit a dead-end while solving''), Suc k)
                   else draw_loop' g (Suc k) giver receivers
                 else Some (Inr ?r, Suc k)) = Some y"
      using 1(2) unfolding choice_nonempty[OF False] by simp
    show ?thesis
    proof (cases "?r = giver \<and> length receivers \<noteq> 1")
      case True
      with body have "draw_loop' g (Suc k) giver receivers = Some y" by simp
      from 1(1)[OF this] show ?thesis by auto
    next
      case False
      with body have "y = (if ?r = giver then (Inl (DeadEndException ''Hit a dead-end while solving''), Suc k) else (Inr ?r, Suc k))"
        by (simp split: if_splits)
      then show ?thesis by (simp split: if_splits)
    qed
  qed
qed

lemma swap_two:
  assumes "j < 2"
  shows "[A, B][Suc 0 := [A, B] ! j, j := B] = (if j = 1 then [A, B] else [B, A])"
proof -
  from assms have "j = 0 \<or> j = 1" by auto
  then show ?thesis by auto
qed

lemma pick_two:
  assumes "j < 2" and "i < 2" and "A \<noteq> B"
  shows "(if j = 1 then [A, B] else [B, A]) ! i \<noteq> A \<longleftrightarrow> i = j"
proof -
  from assms(1) have "j = 0 \<or> j = 1" by auto
  moreover from assms(2) have "i = 0 \<or> i = 1" by auto
  ultimately show ?thesis using assms(3) by auto
qed

lemma shuffle_two:
  assumes "j = g k mod 2"
  shows "shuffle g k [A, B] = (if j = 1 then [A, B] else [B, A], Suc k)"
proof -
  have j: "j < 2" unfolding assms by (rule mod_less_divisor) simp
  have m: "g k mod Suc (Suc 0) = j" using assms by (simp only: numeral_2_eq_2)
  have "shuffle g k [A, B] = ([A, B][Suc 0 := [A, B] ! j, j := B], Suc k)"
    by (simp add: shuffle_def randbelow_def m)
  then show ?thesis by (simp only: swap_two[OF j])
qed

lemma solve_two_unfold:
  assumes ne: "A \<noteq> B" and j: "j = g k mod 2"
  shows "solve g k [A, B] =
     (case draw_loop g (Suc k) A (if j = 1 then [A, B] else [B, A]) of
        None \<Rightarrow> None
      | Some (_, k1) \<Rightarrow>
          (case paranoia_test [A, B] [(A, B), (B, A)] of
             Some e \<Rightarrow> Some (Inl e, Suc k1)
           | None \<Rightarrow> Some (Inr [(A, B), (B, A)], Suc k1)))"
proof -
  let ?recv = "if j = 1 then [A, B] else [B, A]"
  have dB: "draw_loop g k1 B [A] = Some (Inr A, Suc k1)" for k1
    using ne by (subst draw_loop_unfold) simp
  show ?thesis
  proof (cases "draw_loop g (Suc k) A ?recv")
    case None
    then show ?thesis by (simp add: solve_def shuffle_two[where g = g and k = k, OF j])
  next
    case (Some y)
    obtain res k1 where y: "y = (res, k1)" by (cases y)
    from draw_loop_post[OF Some] y ne have "res = Inr B"
      by (cases res) (auto split: if_splits)
    with Some y have dA: "draw_loop g (Suc k) A ?recv = Some (Inr B, k1)" by simp
    have rm: "list_remove B ?recv = Inr [A]" using ne by (simp add: list_remove_def)
    have "pair_loop g (Suc k) [A, B] ?recv [] = Some (Inr ([(A, B), (B, A)], []), Suc k1)"
      using dA rm dB by (simp add: list_remove_def)
    with dA show ?thesis by (simp add: solve_def shuffle_two[where g = g and k = k, OF j])
  qed
qed

text \<open>
  Two different participants with the same name are paired all the same, and then the
  paranoia test fails: the result is the first assertion's error, never a pairing.
\<close>

lemma solve_two_same_name:
  assumes "A \<noteq> B" and "name A = name B" and "solve g k [A, B] = Some (res, k')"
  shows "res = Inl (AssertionError ''Each person should be a giver exactly once'')"
proof -
  have pt: "paranoia_test [A, B] [(A, B), (B, A)] =
              Some (AssertionError ''Each person should be a giver exactly once'')"
    using assms(2) by (simp add: count_loop_eq)
  from assms(3) show ?thesis
    unfolding solve_two_unfold[where g = g and k = k, OF assms(1) refl] pt
    by (auto split: option.splits)
qed

text \<open>
  C2. For two participants with different names, whatever \<^verbatim>\<open>solve\<close> yields is the pairing
  \<open>[(A, B), (B, A)]\<close>: it raises neither \<^verbatim>\<open>DeadEndException\<close> nor any other exception. It
  returns exactly when some later draw has the parity of the shuffle's draw, which is when
  the draw loop of the first giver picks the other participant.
\<close>

theorem solve_two_participants:
  assumes "name A \<noteq> name B"
  shows "(\<forall>res k'. solve g k [A, B] = Some (res, k') \<longrightarrow> res = Inr [(A, B), (B, A)]) \<and>
         (solve g k [A, B] \<noteq> None \<longleftrightarrow> (\<exists>i>k. g i mod 2 = g k mod 2))"
proof
  define j where "j = g k mod 2"
  from assms have ne: "A \<noteq> B" by auto
  have pt: "paranoia_test [A, B] [(A, B), (B, A)] = None"
    using assms by (auto simp: count_loop_eq)
  note unfold = solve_two_unfold[where g = g and k = k, OF ne j_def]
  show "\<forall>res k'. solve g k [A, B] = Some (res, k') \<longrightarrow> res = Inr [(A, B), (B, A)]"
    unfolding unfold pt by (auto split: option.splits)
next
  define j where "j = g k mod 2"
  let ?recv = "if j = 1 then [A, B] else [B, A]"
  from assms have ne: "A \<noteq> B" by auto
  have pt: "paranoia_test [A, B] [(A, B), (B, A)] = None"
    using assms by (auto simp: count_loop_eq)
  note unfold = solve_two_unfold[where g = g and k = k, OF ne j_def]
  have j: "j < 2" unfolding j_def by (rule mod_less_divisor) simp
  have len: "length ?recv = 2" by simp
  have pick: "?recv ! (g i mod length ?recv) \<noteq> A \<longleftrightarrow> g i mod 2 = j" for i
  proof -
    have "g i mod 2 < 2" by (rule mod_less_divisor) simp
    from pick_two[OF j this ne] show ?thesis by (simp only: len)
  qed
  have nonempty: "?recv \<noteq> []" by simp
  have "solve g k [A, B] \<noteq> None \<longleftrightarrow> draw_loop g (Suc k) A ?recv \<noteq> None"
    unfolding unfold pt by (auto split: option.splits)
  also have "\<dots> \<longleftrightarrow> (\<exists>i>k. g i mod 2 = j)"
  proof
    assume "draw_loop g (Suc k) A ?recv \<noteq> None"
    then obtain y where d: "draw_loop g (Suc k) A ?recv = Some y" by blast
    obtain res k1 where y: "y = (res, k1)" by (cases y)
    from draw_loop_post[OF d] y ne obtain r where r: "res = Inr r"
      by (cases res) (auto split: if_splits)
    from draw_loop_post[OF d] y r have rA: "r \<noteq> A" by simp
    from draw_loop_last_draw[OF d] y r have
      l: "Suc k < k1" "r = ?recv ! (g (k1 - 1) mod length ?recv)" by simp_all
    from l(2) rA have "?recv ! (g (k1 - 1) mod length ?recv) \<noteq> A" by simp
    then have "g (k1 - 1) mod 2 = j" by (simp only: pick)
    moreover from l(1) have "k < k1 - 1" by simp
    ultimately show "\<exists>i>k. g i mod 2 = j" by blast
  next
    assume "\<exists>i>k. g i mod 2 = j"
    then obtain i where i: "k < i" "g i mod 2 = j" by blast
    then obtain n where n: "i = Suc k + n" by (metis less_iff_Suc_add add_Suc)
    from i(2) have "?recv ! (g i mod length ?recv) \<noteq> A" by (simp only: pick)
    with n have "?recv ! (g (Suc k + n) mod length ?recv) \<noteq> A" by simp
    from draw_loop_terminates[where g = g and k = "Suc k" and n = n, OF nonempty this] show "draw_loop g (Suc k) A ?recv \<noteq> None" by simp
  qed
  finally show "solve g k [A, B] \<noteq> None \<longleftrightarrow> (\<exists>i>k. g i mod 2 = g k mod 2)"
    unfolding j_def .
qed

theorem solve_two_participants_witness:
  "name alice \<noteq> name bob \<and>
   solve dead_end_rng 0 [alice, bob] = Some (Inr [(alice, bob), (bob, alice)], 5)"
proof -
  have h: "name alice \<noteq> name bob" by (simp add: alice_def bob_def)
  have e: "solve dead_end_rng 0 [alice, bob] = Some (Inr [(alice, bob), (bob, alice)], 5)"
    by code_simp
  from solve_two_participants[OF h, of dead_end_rng 0] h e show ?thesis by simp
qed

subsection \<open>When solve raises the dead end\<close>

lemma pair_loop_append:
  "pair_loop g k (xs @ ys) receivers pairs =
     (case pair_loop g k xs receivers pairs of
        None \<Rightarrow> None
      | Some (Inl e, k') \<Rightarrow> Some (Inl e, k')
      | Some (Inr (pairs', receivers'), k') \<Rightarrow> pair_loop g k' ys receivers' pairs')"
  by (induction xs arbitrary: k receivers pairs)
     (simp_all split: option.splits sum.splits prod.splits)

lemma pair_loop_dead_end_D:
  "pair_loop g k givers receivers pairs = Some (Inl (DeadEndException m), k') \<Longrightarrow>
   \<exists>before giver after pairs' k2.
     givers = before @ giver # after \<and>
     pair_loop g k before receivers pairs = Some (Inr (pairs', [giver]), k2) \<and>
     k' = Suc k2 \<and> m = ''Hit a dead-end while solving''"
proof (induction givers arbitrary: k receivers pairs)
  case Nil
  then show ?case by simp
next
  case (Cons giver givers)
  show ?case
  proof (cases "draw_loop g k giver receivers")
    case None
    with Cons.prems show ?thesis by simp
  next
    case (Some y)
    obtain res k1 where y: "y = (res, k1)" by (cases y)
    show ?thesis
    proof (cases res)
      case (Inl e)
      with Some y have d: "draw_loop g k giver receivers = Some (Inl e, k1)" by simp
      with Cons.prems have "e = DeadEndException m" "k1 = k'" by simp_all
      with d have "draw_loop g k giver receivers = Some (Inl (DeadEndException m), k')" by simp
      then have "receivers = [giver] \<and> k' = Suc k \<and> m = ''Hit a dead-end while solving''"
        by (simp only: draw_loop_dead_end_iff)
      then have "giver # givers = [] @ giver # givers \<and>
                 pair_loop g k [] receivers pairs = Some (Inr (pairs, [giver]), k) \<and>
                 k' = Suc k \<and> m = ''Hit a dead-end while solving''"
        by simp
      then show ?thesis by blast
    next
      case (Inr r)
      with Some y have d: "draw_loop g k giver receivers = Some (Inr r, k1)" by simp
      from draw_loop_post[OF d] have mem: "r \<in> set receivers" by simp
      with Cons.prems d have
        "pair_loop g k1 givers (remove1 r receivers) (pairs @ [(giver, r)]) = Some (Inl (DeadEndException m), k')"
        by (simp add: list_remove_mem)
      from Cons.IH[OF this] obtain before giver' after pairs' k2 where
        ih: "givers = before @ giver' # after"
            "pair_loop g k1 before (remove1 r receivers) (pairs @ [(giver, r)]) = Some (Inr (pairs', [giver']), k2)"
            "k' = Suc k2" "m = ''Hit a dead-end while solving''"
        by blast
      have "pair_loop g k (giver # before) receivers pairs = Some (Inr (pairs', [giver']), k2)"
        using d mem ih(2) by (simp add: list_remove_mem)
      moreover have "giver # givers = (giver # before) @ giver' # after" using ih(1) by simp
      ultimately show ?thesis using ih(3,4) by blast
    qed
  qed
qed

text \<open>
  C5. \<^verbatim>\<open>solve\<close> raises \<^verbatim>\<open>DeadEndException\<close> exactly when, after the givers before some
  giver have been paired, the candidate drawn for that giver is the giver and the pool has
  that one element; the cursor then stands right after that draw, so no further giver is
  processed. An exception carries no pairs, and a returned list has a pair for every giver.
\<close>

theorem solve_dead_end_iff:
  "(solve g k S = Some (Inl (DeadEndException m), k') \<longleftrightarrow>
     (\<exists>recv k1 before giver after pairs pool k2.
        shuffle g k S = (recv, k1) \<and> S = before @ giver # after \<and>
        pair_loop g k1 before recv [] = Some (Inr (pairs, pool), k2) \<and>
        choice g k2 pool = (Inr giver, k') \<and> length pool = 1 \<and>
        m = ''Hit a dead-end while solving'')) \<and>
   (\<forall>pairs k''. solve g k S = Some (Inr pairs, k'') \<longrightarrow> map fst pairs = S)"
proof (intro conjI iffI allI impI)
  assume "solve g k S = Some (Inl (DeadEndException m), k')"
  from solve_Inl_D[OF this] obtain recv where
    sh: "shuffle g k S = (recv, k + (length S - 1))" and
    c: "pair_loop g (k + (length S - 1)) S recv [] = Some (Inl (DeadEndException m), k') \<or>
        (\<exists>pairs rest. pair_loop g (k + (length S - 1)) S recv [] = Some (Inr (pairs, rest), k') \<and>
                      paranoia_test S pairs = Some (DeadEndException m))"
    by blast
  have "pair_loop g (k + (length S - 1)) S recv [] = Some (Inl (DeadEndException m), k')"
    using c by (auto dest: paranoia_test_Some)
  from pair_loop_dead_end_D[OF this] obtain before giver after pairs k2 where
    d: "S = before @ giver # after"
       "pair_loop g (k + (length S - 1)) before recv [] = Some (Inr (pairs, [giver]), k2)"
       "k' = Suc k2" "m = ''Hit a dead-end while solving''"
    by blast
  have "choice g k2 [giver] = (Inr giver, k')" using d(3) by (simp add: choice_nonempty)
  moreover have "length [giver] = 1" by simp
  ultimately show "\<exists>recv k1 before giver after pairs pool k2.
        shuffle g k S = (recv, k1) \<and> S = before @ giver # after \<and>
        pair_loop g k1 before recv [] = Some (Inr (pairs, pool), k2) \<and>
        choice g k2 pool = (Inr giver, k') \<and> length pool = 1 \<and>
        m = ''Hit a dead-end while solving''"
    using sh d(1,2,4) by blast
next
  assume "\<exists>recv k1 before giver after pairs pool k2.
        shuffle g k S = (recv, k1) \<and> S = before @ giver # after \<and>
        pair_loop g k1 before recv [] = Some (Inr (pairs, pool), k2) \<and>
        choice g k2 pool = (Inr giver, k') \<and> length pool = 1 \<and>
        m = ''Hit a dead-end while solving''"
  then obtain recv k1 before giver after pairs pool k2 where
    a: "shuffle g k S = (recv, k1)" "S = before @ giver # after"
       "pair_loop g k1 before recv [] = Some (Inr (pairs, pool), k2)"
       "choice g k2 pool = (Inr giver, k')" "length pool = 1"
       "m = ''Hit a dead-end while solving''"
    by blast
  from a(5) obtain r where pool: "pool = [r]" by (cases pool) auto
  with a(4) have "r = giver" "k' = Suc k2" by (simp_all add: choice_nonempty)
  with pool a(6) have "draw_loop g k2 giver pool = Some (Inl (DeadEndException m), k')"
    by (simp only: draw_loop_dead_end_iff)
  then have "pair_loop g k2 (giver # after) pool pairs = Some (Inl (DeadEndException m), k')"
    by simp
  with a(3) have "pair_loop g k1 (before @ giver # after) recv [] = Some (Inl (DeadEndException m), k')"
    by (simp add: pair_loop_append)
  with a(1,2) show "solve g k S = Some (Inl (DeadEndException m), k')"
    by (simp add: solve_def)
next
  fix pairs k''
  assume "solve g k S = Some (Inr pairs, k'')"
  from solve_shape[OF this] show "map fst pairs = S" by simp
qed

theorem solve_dead_end_iff_witness:
  "shuffle dead_end_rng 0 [alice, bob, carol] = ([alice, bob, carol], 2) \<and>
   pair_loop dead_end_rng 2 [alice, bob] [alice, bob, carol] [] =
     Some (Inr ([(alice, bob), (bob, alice)], [carol]), 4) \<and>
   choice dead_end_rng 4 [carol] = (Inr carol, 5) \<and>
   solve dead_end_rng 0 [alice, bob, carol] =
     Some (Inl (DeadEndException ''Hit a dead-end while solving''), 5)"
proof -
  have 1: "shuffle dead_end_rng 0 [alice, bob, carol] = ([alice, bob, carol], 2)" by code_simp
  have 2: "pair_loop dead_end_rng 2 [alice, bob] [alice, bob, carol] [] =
     Some (Inr ([(alice, bob), (bob, alice)], [carol]), 4)" by code_simp
  have 3: "choice dead_end_rng 4 [carol] = (Inr carol, 5)" by code_simp
  have "shuffle dead_end_rng 0 [alice, bob, carol] = ([alice, bob, carol], 2) \<and>
        [alice, bob, carol] = [alice, bob] @ carol # [] \<and>
        pair_loop dead_end_rng 2 [alice, bob] [alice, bob, carol] [] =
          Some (Inr ([(alice, bob), (bob, alice)], [carol]), 4) \<and>
        choice dead_end_rng 4 [carol] = (Inr carol, 5) \<and> length [carol] = 1 \<and>
        ''Hit a dead-end while solving'' = ''Hit a dead-end while solving''"
    using 1 2 3 by simp
  then have "\<exists>recv k1 before giver after pairs pool k2.
        shuffle dead_end_rng 0 [alice, bob, carol] = (recv, k1) \<and>
        [alice, bob, carol] = before @ giver # after \<and>
        pair_loop dead_end_rng k1 before recv [] = Some (Inr (pairs, pool), k2) \<and>
        choice dead_end_rng k2 pool = (Inr giver, 5) \<and> length pool = 1 \<and>
        ''Hit a dead-end while solving'' = ''Hit a dead-end while solving''"
    by blast
  then have "solve dead_end_rng 0 [alice, bob, carol] =
     Some (Inl (DeadEndException ''Hit a dead-end while solving''), 5)"
    by (rule solve_dead_end_iff[THEN conjunct1, THEN iffD2])
  with 1 2 3 show ?thesis by simp
qed

subsection \<open>Determinism under a fixed random sequence\<close>

lemma shuffle_loop_cong:
  "(\<forall>i. k \<le> i \<and> i < k + m \<longrightarrow> g' i = g i) \<Longrightarrow> shuffle_loop g' k x m = shuffle_loop g k x m"
proof (induction m arbitrary: k x)
  case 0
  then show ?case by simp
next
  case (Suc m)
  from Suc.prems have gk: "g' k = g k" by simp
  from Suc.prems have "\<forall>i. Suc k \<le> i \<and> i < Suc k + m \<longrightarrow> g' i = g i" by simp
  from Suc.IH[OF this] gk show ?case by (simp add: randbelow_def)
qed

lemma pair_loop_mono:
  "pair_loop g k givers receivers pairs = Some (res, k') \<Longrightarrow> k \<le> k'"
proof (induction givers arbitrary: k receivers pairs)
  case Nil
  then show ?case by simp
next
  case (Cons giver givers)
  show ?case
  proof (cases "draw_loop g k giver receivers")
    case None
    with Cons.prems show ?thesis by simp
  next
    case (Some y)
    obtain r0 k1 where y: "y = (r0, k1)" by (cases y)
    from draw_loop_post[OF Some] y have k1: "k \<le> k1" by simp
    show ?thesis
    proof (cases r0)
      case (Inl e)
      with Cons.prems Some y have "k' = k1" by simp
      with k1 show ?thesis by simp
    next
      case (Inr r)
      from draw_loop_post[OF Some] y Inr have "r \<in> set receivers" by simp
      with Cons.prems Some y Inr have
        "pair_loop g k1 givers (remove1 r receivers) (pairs @ [(giver, r)]) = Some (res, k')"
        by (simp add: list_remove_mem)
      from Cons.IH[OF this] k1 show ?thesis by simp
    qed
  qed
qed

lemma pair_loop_cong:
  "pair_loop g k givers receivers pairs = Some (res, k') \<Longrightarrow>
   (\<forall>i. k \<le> i \<and> i < k' \<longrightarrow> g' i = g i) \<Longrightarrow>
   pair_loop g' k givers receivers pairs = Some (res, k')"
proof (induction givers arbitrary: k receivers pairs)
  case Nil
  then show ?case by simp
next
  case (Cons giver givers)
  show ?case
  proof (cases "draw_loop g k giver receivers")
    case None
    with Cons.prems(1) show ?thesis by simp
  next
    case (Some y)
    obtain r0 k1 where y: "y = (r0, k1)" by (cases y)
    from draw_loop_post[OF Some] y have k1: "k \<le> k1" by simp
    show ?thesis
    proof (cases r0)
      case (Inl e)
      with Cons.prems(1) Some y have eq: "k' = k1" "res = Inl e" by simp_all
      with Cons.prems(2) y have "\<forall>i. k \<le> i \<and> i < snd y \<longrightarrow> g' i = g i" by simp
      with draw_loop_cong[OF Some] have "draw_loop g' k giver receivers = Some y" by blast
      with y Inl eq show ?thesis by simp
    next
      case (Inr r)
      from draw_loop_post[OF Some] y Inr have mem: "r \<in> set receivers" by simp
      with Cons.prems(1) Some y Inr have
        rest: "pair_loop g k1 givers (remove1 r receivers) (pairs @ [(giver, r)]) = Some (res, k')"
        by (simp add: list_remove_mem)
      from pair_loop_mono[OF rest] have "k1 \<le> k'" .
      with Cons.prems(2) y have "\<forall>i. k \<le> i \<and> i < snd y \<longrightarrow> g' i = g i" by simp
      with draw_loop_cong[OF Some] have d: "draw_loop g' k giver receivers = Some y" by blast
      from Cons.prems(2) k1 have "\<forall>i. k1 \<le> i \<and> i < k' \<longrightarrow> g' i = g i" by simp
      from Cons.IH[OF rest this] d y Inr mem show ?thesis by (simp add: list_remove_mem)
    qed
  qed
qed

text \<open>
  C9. A run of \<^verbatim>\<open>solve\<close> that ends, whether it returns or raises, depends on the random source
  only through the numbers it consumed: a second run on the same participants whose source
  gives the same numbers at the cursor positions \<open>k, \<dots>, k' - 1\<close> has the same outcome and
  ends at the same cursor.
\<close>

theorem solve_deterministic:
  assumes "solve g k S = Some (res, k')" and "\<forall>i. k \<le> i \<and> i < k' \<longrightarrow> g' i = g i"
  shows "solve g' k S = Some (res, k')"
proof -
  let ?k1 = "k + (length S - 1)"
  obtain recv k1 where sh: "shuffle g k S = (recv, k1)" by (cases "shuffle g k S")
  from shuffle_post[OF sh] have k1: "k1 = ?k1" by simp
  from assms(1) sh obtain out k2 where
    pl: "pair_loop g k1 S recv [] = Some (out, k2)" and k2: "k2 = k'"
    by (auto simp: solve_def split: option.splits sum.splits prod.splits)
  from pair_loop_mono[OF pl] k1 k2 have le: "?k1 \<le> k'" by simp
  have "\<forall>i. k \<le> i \<and> i < k + (length S - 1) \<longrightarrow> g' i = g i" using assms(2) le by simp
  from shuffle_loop_cong[OF this, of S] sh have sh': "shuffle g' k S = (recv, k1)"
    by (simp add: shuffle_def)
  have "\<forall>i. k1 \<le> i \<and> i < k2 \<longrightarrow> g' i = g i" using assms(2) k1 k2 by simp
  from pair_loop_cong[OF pl this] have "pair_loop g' k1 S recv [] = pair_loop g k1 S recv []"
    using pl by simp
  with sh sh' have "solve g' k S = solve g k S" by (simp add: solve_def)
  with assms(1) show ?thesis by simp
qed

theorem solve_deterministic_witness:
  "solve dead_end_rng 0 [alice, bob, carol] =
     Some (Inl (DeadEndException ''Hit a dead-end while solving''), 5) \<and>
   other_rng 5 \<noteq> dead_end_rng 5 \<and>
   solve other_rng 0 [alice, bob, carol] =
     Some (Inl (DeadEndException ''Hit a dead-end while solving''), 5)"
proof -
  have h1: "solve dead_end_rng 0 [alice, bob, carol] =
     Some (Inl (DeadEndException ''Hit a dead-end while solving''), 5)"
    by code_simp
  have h2: "\<forall>i. 0 \<le> i \<and> i < 5 \<longrightarrow> other_rng i = dead_end_rng i"
    by (simp add: other_rng_def dead_end_rng_def)
  have d: "other_rng 5 \<noteq> dead_end_rng 5" by (simp add: other_rng_def dead_end_rng_def)
  from solve_deterministic[OF h1 h2] h1 d show ?thesis by simp
qed

subsection \<open>The driver when every attempt is a dead end\<close>

lemma retry_loop_dead_end:
  assumes "solve g k ps = Some (Inl (DeadEndException m), k1)"
  shows "retry_loop g k ps (Suc n) st =
     retry_loop g k1 ps n
       (st\<lparr>attempts := attempts st + 1, calls := calls st @ [(ps, k)],
           printed := printed st @ [''Failed to solve, retrying...'']\<rparr>)"
  using assms by simp

lemma all_dead_end_Suc_D:
  assumes "all_dead_end g k ps (Suc n)"
  shows "\<exists>m k1. solve g k ps = Some (Inl (DeadEndException m), k1) \<and> all_dead_end g k1 ps n"
proof (cases "solve g k ps")
  case None
  with assms show ?thesis by simp
next
  case (Some y)
  obtain res k1 where y: "y = (res, k1)" by (cases y)
  show ?thesis
  proof (cases res)
    case (Inr pairs)
    with assms Some y show ?thesis by simp
  next
    case (Inl e)
    with assms Some y show ?thesis by (cases e) simp_all
  qed
qed

lemma retry_loop_all_dead_end:
  "all_dead_end g k ps n \<Longrightarrow>
   \<exists>st' k'. retry_loop g k ps n st = Some ((None, st'), k') \<and>
     attempts st' = attempts st + n \<and> length (calls st') = length (calls st) + n \<and>
     sent st' = sent st \<and>
     printed st' = printed st @ replicate n ''Failed to solve, retrying...''"
proof (induction n arbitrary: k st)
  case 0
  then show ?case by simp
next
  case (Suc n)
  from all_dead_end_Suc_D[OF Suc.prems] obtain m k1 where
    s: "solve g k ps = Some (Inl (DeadEndException m), k1)" and a: "all_dead_end g k1 ps n"
    by blast
  let ?st = "st\<lparr>attempts := attempts st + 1, calls := calls st @ [(ps, k)],
           printed := printed st @ [''Failed to solve, retrying...'']\<rparr>"
  from Suc.IH[OF a, of ?st] obtain st' k' where
    ih: "retry_loop g k1 ps n ?st = Some ((None, st'), k')"
        "attempts st' = attempts ?st + n" "length (calls st') = length (calls ?st) + n"
        "sent st' = sent ?st"
        "printed st' = printed ?st @ replicate n ''Failed to solve, retrying...''"
    by blast
  have 1: "retry_loop g k ps (Suc n) st = Some ((None, st'), k')"
    using ih(1) by (simp only: retry_loop_dead_end[OF s])
  have 2: "attempts st' = attempts st + Suc n" using ih(2) by simp
  have 3: "length (calls st') = length (calls st) + Suc n" using ih(3) by simp
  have 4: "sent st' = sent st" using ih(4) by simp
  have 5: "printed st' = printed st @ replicate (Suc n) ''Failed to solve, retrying...''"
    using ih(5) by (simp add: replicate_app_Cons_same)
  from 1 2 3 4 5 show ?case by blast
qed

text \<open>
  C1, as the code has it. If each of the twenty attempts raises \<^verbatim>\<open>DeadEndException\<close>, the driver
  ends after exactly twenty calls of \<^verbatim>\<open>solve\<close>, hands no pairing to \<^verbatim>\<open>send_emails\<close>, prints
  the retry line twenty times and raises nothing: the loop ends and the two closing lines are
  printed.
\<close>

theorem run_main_all_dead_end:
  assumes "all_dead_end g k ps max_attempts"
  shows "\<exists>st k'. run_main g k ps = Some ((None, st), k') \<and>
           attempts st = 20 \<and> length (calls st) = 20 \<and> sent st = [] \<and>
           printed st = replicate 20 ''Failed to solve, retrying...'' @ ['''', ''Finished!'']"
proof -
  let ?st0 = "\<lparr>attempts = 0, sent = [], printed = [], calls = []\<rparr>"
  from retry_loop_all_dead_end[OF assms, of ?st0] obtain st' k' where
    r: "retry_loop g k ps max_attempts ?st0 = Some ((None, st'), k')"
       "attempts st' = attempts ?st0 + max_attempts"
       "length (calls st') = length (calls ?st0) + max_attempts"
       "sent st' = sent ?st0"
       "printed st' = printed ?st0 @ replicate max_attempts ''Failed to solve, retrying...''"
    by blast
  let ?st = "st'\<lparr>printed := printed st' @ ['''', ''Finished!'']\<rparr>"
  have "run_main g k ps = Some ((None, ?st), k')" using r(1) by (simp add: run_main_def)
  moreover have "attempts ?st = 20" using r(2) by (simp add: max_attempts_def)
  moreover have "length (calls ?st) = 20" using r(3) by (simp add: max_attempts_def)
  moreover have "sent ?st = []" using r(4) by simp
  moreover have "printed ?st = replicate 20 ''Failed to solve, retrying...'' @ ['''', ''Finished!'']"
    using r(5) by (simp add: max_attempts_def)
  ultimately show ?thesis by blast
qed

theorem run_main_all_dead_end_witness:
  "all_dead_end dead_end_rng 0 [alice, bob, carol] max_attempts \<and>
   map_option (attempts \<circ> snd \<circ> fst) (run_main dead_end_rng 0 [alice, bob, carol]) = Some 20 \<and>
   map_option (sent \<circ> snd \<circ> fst) (run_main dead_end_rng 0 [alice, bob, carol]) = Some []"
proof -
  have h: "all_dead_end dead_end_rng 0 [alice, bob, carol] max_attempts" by code_simp
  from run_main_all_dead_end[OF h] h show ?thesis by auto
qed

text \<open>
  The source has no exception for an exhausted bound. With a random source that makes every
  attempt on three participants a dead end, the twenty attempts all fail, yet the run raises
  nothing and its last printed line is \<^verbatim>\<open>Finished!\<close>.
\<close>

theorem run_main_exhausted_counterexample:
  "all_dead_end dead_end_rng 0 [alice, bob, carol] max_attempts \<and>
   map_option (fst \<circ> fst) (run_main dead_end_rng 0 [alice, bob, carol]) = Some None \<and>
   map_option (last \<circ> printed \<circ> snd \<circ> fst) (run_main dead_end_rng 0 [alice, bob, carol]) =
     Some ''Finished!''"
  by code_simp

subsection \<open>The calls of solve made by the driver\<close>

lemma retry_loop_trace:
  "retry_loop g k ps (Suc n) st = Some ((err, st'), k') \<Longrightarrow>
   \<exists>new res. new \<noteq> [] \<and> calls st' = calls st @ new \<and>
     attempts st' = attempts st + length new \<and> length new \<le> Suc n \<and>
     snd (hd new) = k \<and> retried g ps new k' \<and>
     solve g (snd (last new)) ps = Some (res, k') \<and>
     (\<exists>new_sent. sent st' = sent st @ new_sent \<and>
        last_attempt res err new_sent (length new = Suc n))"
proof (induction n arbitrary: k st)
  case 0
  let ?st1 = "st\<lparr>attempts := attempts st + 1, calls := calls st @ [(ps, k)]\<rparr>"
  show ?case
  proof (cases "solve g k ps")
    case None
    with 0 show ?thesis by simp
  next
    case (Some y)
    obtain res k1 where y: "y = (res, k1)" by (cases y)
    with Some have s: "solve g k ps = Some (res, k1)" by simp
    have "k' = k1 \<and> calls st' = calls st @ [(ps, k)] \<and> attempts st' = attempts st + 1 \<and>
          (\<exists>new_sent. sent st' = sent st @ new_sent \<and> last_attempt res err new_sent True)"
    proof (cases res)
      case (Inr pairs)
      with 0 s show ?thesis by (auto simp: send_emails_def last_attempt_def)
    next
      case (Inl e)
      with 0 s show ?thesis by (cases e) (auto simp: last_attempt_def)
    qed
    then obtain new_sent where
      f: "k' = k1" "calls st' = calls st @ [(ps, k)]" "attempts st' = attempts st + 1"
         "sent st' = sent st @ new_sent" "last_attempt res err new_sent True"
      by blast
    let ?new = "[(ps, k)]"
    have "?new \<noteq> [] \<and> calls st' = calls st @ ?new \<and>
          attempts st' = attempts st + length ?new \<and> length ?new \<le> Suc 0 \<and>
          snd (hd ?new) = k \<and> retried g ps ?new k' \<and>
          solve g (snd (last ?new)) ps = Some (res, k') \<and>
          (\<exists>new_sent. sent st' = sent st @ new_sent \<and>
             last_attempt res err new_sent (length ?new = Suc 0))"
      using f s by auto
    then show ?thesis by blast
  qed
next
  case (Suc n)
  let ?st1 = "st\<lparr>attempts := attempts st + 1, calls := calls st @ [(ps, k)]\<rparr>"
  show ?case
  proof (cases "solve g k ps")
    case None
    with Suc.prems show ?thesis by simp
  next
    case (Some y)
    obtain res k1 where y: "y = (res, k1)" by (cases y)
    with Some have s: "solve g k ps = Some (res, k1)" by simp
    show ?thesis
    proof (cases "\<exists>m. res = Inl (DeadEndException m)")
      case True
      then obtain m where res: "res = Inl (DeadEndException m)" ..
      let ?st2 = "st\<lparr>attempts := attempts st + 1, calls := calls st @ [(ps, k)],
           printed := printed st @ [''Failed to solve, retrying...'']\<rparr>"
      from s res have s': "solve g k ps = Some (Inl (DeadEndException m), k1)" by simp
      from Suc.prems have "retry_loop g k1 ps (Suc n) ?st2 = Some ((err, st'), k')"
        by (simp only: retry_loop_dead_end[OF s'])
      from Suc.IH[OF this] obtain new res' new_sent where
        ih: "new \<noteq> []" "calls st' = calls ?st2 @ new"
            "attempts st' = attempts ?st2 + length new" "length new \<le> Suc n"
            "snd (hd new) = k1" "retried g ps new k'"
            "solve g (snd (last new)) ps = Some (res', k')"
            "sent st' = sent ?st2 @ new_sent"
            "last_attempt res' err new_sent (length new = Suc n)"
        by blast
      from ih(1) obtain d cs where new: "new = d # cs" by (cases new) auto
      let ?new = "(ps, k) # new"
      have 1: "calls st' = calls st @ ?new" using ih(2) by simp
      have 2: "attempts st' = attempts st + length ?new" using ih(3) by simp
      have 3: "length ?new \<le> Suc (Suc n)" using ih(4) by simp
      have 4: "snd (hd ?new) = k" by simp
      have 5: "retried g ps ?new k'" using ih(5,6) s' new by simp
      have 6: "solve g (snd (last ?new)) ps = Some (res', k')" using ih(1,7) by simp
      have 7: "sent st' = sent st @ new_sent" using ih(8) by simp
      have 8: "last_attempt res' err new_sent (length ?new = Suc (Suc n))" using ih(9) by simp
      have "?new \<noteq> []" by simp
      with 1 2 3 4 5 6 7 8 show ?thesis by blast
    next
      case False
      have "k' = k1 \<and> calls st' = calls st @ [(ps, k)] \<and> attempts st' = attempts st + 1 \<and>
            (\<exists>new_sent. sent st' = sent st @ new_sent \<and> last_attempt res err new_sent False)"
      proof (cases res)
        case (Inr pairs)
        with Suc.prems s show ?thesis by (auto simp: send_emails_def last_attempt_def)
      next
        case (Inl e)
        with Suc.prems s False show ?thesis by (cases e) (auto simp: last_attempt_def)
      qed
      then obtain new_sent where
        f: "k' = k1" "calls st' = calls st @ [(ps, k)]" "attempts st' = attempts st + 1"
           "sent st' = sent st @ new_sent" "last_attempt res err new_sent False"
        by blast
      let ?new = "[(ps, k)]"
      have "?new \<noteq> [] \<and> calls st' = calls st @ ?new \<and>
            attempts st' = attempts st + length ?new \<and> length ?new \<le> Suc (Suc n) \<and>
            snd (hd ?new) = k \<and> retried g ps ?new k' \<and>
            solve g (snd (last ?new)) ps = Some (res, k') \<and>
            (\<exists>new_sent. sent st' = sent st @ new_sent \<and>
               last_attempt res err new_sent (length ?new = Suc (Suc n)))"
        using f s by auto
      then show ?thesis by blast
    qed
  qed
qed

subsection \<open>At most twenty attempts, each from scratch\<close>

text \<open>
  C6. In a run of the driver that ends, \<^verbatim>\<open>solve\<close> is called once per counted attempt, at least
  once and at most twenty times. Every call is on the participant list the driver was given,
  the first at the cursor the driver started with. Every call but the last raised
  \<^verbatim>\<open>DeadEndException\<close>, and the next call starts where it left the random source, so a call
  that returns a pairing is the last one. The last call either returned a pairing, which is
  sent; or was a dead end at the twentieth attempt; or raised another exception, which leaves
  the program.
\<close>

theorem run_main_calls:
  assumes "run_main g k ps = Some ((err, st), k')"
  shows "attempts st = length (calls st) \<and> 1 \<le> length (calls st) \<and> length (calls st) \<le> 20 \<and>
         snd (hd (calls st)) = k \<and> retried g ps (calls st) k' \<and>
         (\<exists>res. solve g (snd (last (calls st))) ps = Some (res, k') \<and>
                last_attempt res err (sent st) (length (calls st) = 20))"
proof -
  let ?st0 = "\<lparr>attempts = 0, sent = [], printed = [], calls = []\<rparr>"
  have m: "max_attempts = Suc 19" by (simp add: max_attempts_def)
  obtain st1 where
    r: "retry_loop g k ps (Suc 19) ?st0 = Some ((err, st1), k')" and
    st: "calls st = calls st1" "attempts st = attempts st1" "sent st = sent st1"
  proof (cases "retry_loop g k ps (Suc 19) ?st0")
    case None
    with assms m show ?thesis by (simp add: run_main_def)
  next
    case (Some y)
    obtain err1 st1 k1 where y: "y = ((err1, st1), k1)" by (cases y) auto
    show ?thesis
    proof (cases err1)
      case None
      with assms m Some y have "err = None" "k' = k1"
        "st = st1\<lparr>printed := printed st1 @ ['''', ''Finished!'']\<rparr>"
        by (simp_all add: run_main_def)
      with Some y None that[of st1] show ?thesis by simp
    next
      case (Some e)
      with assms m \<open>retry_loop g k ps (Suc 19) ?st0 = Some y\<close> y
      have "err = Some e" "k' = k1" "st = st1" by (simp_all add: run_main_def)
      with \<open>retry_loop g k ps (Suc 19) ?st0 = Some y\<close> y Some that[of st1] show ?thesis by simp
    qed
  qed
  from retry_loop_trace[OF r] obtain new res new_sent where
    t: "new \<noteq> []" "calls st1 = calls ?st0 @ new" "attempts st1 = attempts ?st0 + length new"
       "length new \<le> Suc 19" "snd (hd new) = k" "retried g ps new k'"
       "solve g (snd (last new)) ps = Some (res, k')"
       "sent st1 = sent ?st0 @ new_sent"
       "last_attempt res err new_sent (length new = Suc 19)"
    by blast
  from t(2) st(1) have c: "calls st = new" by simp
  have 1: "attempts st = length (calls st)" using t(3) st(2) c by simp
  have 2: "1 \<le> length (calls st)" using t(1) c by (cases new) simp_all
  have 3: "length (calls st) \<le> 20" using t(4) c by simp
  have 4: "snd (hd (calls st)) = k" using t(5) c by simp
  have 5: "retried g ps (calls st) k'" using t(6) c by simp
  have 6: "solve g (snd (last (calls st))) ps = Some (res, k')" using t(7) c by simp
  have 7: "last_attempt res err (sent st) (length (calls st) = 20)" using t(8,9) st(3) c by simp
  from 1 2 3 4 5 6 7 show ?thesis by blast
qed

theorem run_main_calls_witness:
  "run_main retry_rng 0 [alice, bob, carol] =
     Some ((None,
            \<lparr>attempts = 2, sent = [[(alice, bob), (bob, carol), (carol, alice)]],
             printed = [''Failed to solve, retrying...'', '''', ''Finished!''],
             calls = [([alice, bob, carol], 0), ([alice, bob, carol], 5)]\<rparr>), 10) \<and>
   retried retry_rng [alice, bob, carol] [([alice, bob, carol], 0), ([alice, bob, carol], 5)] 10"
proof -
  have h: "run_main retry_rng 0 [alice, bob, carol] =
     Some ((None,
            \<lparr>attempts = 2, sent = [[(alice, bob), (bob, carol), (carol, alice)]],
             printed = [''Failed to solve, retrying...'', '''', ''Finished!''],
             calls = [([alice, bob, carol], 0), ([alice, bob, carol], 5)]\<rparr>), 10)"
    by code_simp
  from run_main_calls[OF h] have
    "retried retry_rng [alice, bob, carol] [([alice, bob, carol], 0), ([alice, bob, carol], 5)] 10"
    by (simp del: retried.simps)
  with h show ?thesis by (simp del: retried.simps)
qed

subsection \<open>The store after solve\<close>

lemma deepcopy_elems_frame:
  "deepcopy_elems h memo rs = (rs', h', memo') \<Longrightarrow>
   list_objs h' = list_objs h \<and> (\<exists>new. dict_objs h' = dict_objs h @ new)"
proof (induction rs arbitrary: h memo rs' h' memo')
  case Nil
  then show ?case by simp
next
  case (Cons r rs)
  show ?case
  proof (cases "map_of memo r")
    case (Some r')
    obtain a b c where e: "deepcopy_elems h memo rs = (a, b, c)" by (cases "deepcopy_elems h memo rs")
    with Cons.prems Some have "b = h'" by simp
    with Cons.IH[OF e] show ?thesis by simp
  next
    case None
    let ?h = "h\<lparr>dict_objs := dict_objs h @ [dict_objs h ! r]\<rparr>"
    obtain a b c where e: "deepcopy_elems ?h ((r, length (dict_objs h)) # memo) rs = (a, b, c)"
      by (cases "deepcopy_elems ?h ((r, length (dict_objs h)) # memo) rs")
    with Cons.prems None have "b = h'" by simp
    with Cons.IH[OF e] obtain new where "list_objs h' = list_objs ?h" "dict_objs h' = dict_objs ?h @ new" by blast
    then have "list_objs h' = list_objs h \<and> dict_objs h' = dict_objs h @ ([dict_objs h ! r] @ new)" by simp
    then show ?thesis by blast
  qed
qed

lemma deepcopy_frame:
  assumes "deepcopy h p = (r, h')"
  shows "r = length (list_objs h) \<and> (\<exists>new. dict_objs h' = dict_objs h @ new) \<and> (\<exists>rs'. list_objs h' = list_objs h @ [rs'])"
proof -
  obtain a b c where e: "deepcopy_elems h [] (list_objs h ! p) = (a, b, c)"
    by (cases "deepcopy_elems h [] (list_objs h ! p)")
  from deepcopy_elems_frame[OF e] obtain new where b: "list_objs b = list_objs h" "dict_objs b = dict_objs h @ new"
    by blast
  from assms e have "r = length (list_objs b)" "h' = b\<lparr>list_objs := list_objs b @ [a]\<rparr>"
    by (simp_all add: deepcopy_def)
  with b have "r = length (list_objs h) \<and> dict_objs h' = dict_objs h @ new \<and> list_objs h' = list_objs h @ [a]" by simp
  then show ?thesis by blast
qed

lemma pair_loop_h_frame:
  "pair_loop_h g k h givers r pairs = Some (res, h', k') \<Longrightarrow>
   dict_objs h' = dict_objs h \<and> take r (list_objs h') = take r (list_objs h)"
proof (induction givers arbitrary: k h pairs)
  case Nil
  then show ?case by simp
next
  case (Cons giver givers)
  show ?case
  proof (cases "draw_loop_h g k h giver r")
    case None
    with Cons.prems show ?thesis by simp
  next
    case (Some y)
    obtain r0 k1 where y: "y = (r0, k1)" by (cases y)
    show ?thesis
    proof (cases r0)
      case (Inl e)
      with Cons.prems Some y show ?thesis by simp
    next
      case (Inr receiver)
      show ?thesis
      proof (cases "remove_h h receiver (list_objs h ! r)")
        case (Inl e)
        with Cons.prems Some y Inr show ?thesis by simp
      next
        case rm: (Inr xs)
        let ?h = "h\<lparr>list_objs := (list_objs h)[r := xs]\<rparr>"
        from Cons.prems Some y Inr rm have
          "pair_loop_h g k1 ?h givers r (pairs @ [(giver, receiver)]) = Some (res, h', k')"
          by simp
        from Cons.IH[OF this] show ?thesis by simp
      qed
    qed
  qed
qed

lemma solve_h_unchanged:
  assumes "solve_h g k h p = Some (res, h', k')"
  shows "unchanged h h'"
proof -
  obtain givers h1 where c1: "deepcopy h p = (givers, h1)" by (cases "deepcopy h p")
  obtain receivers h2 where c2: "deepcopy h1 p = (receivers, h2)" by (cases "deepcopy h1 p")
  obtain xs k1 where sh: "shuffle g k (list_objs h2 ! receivers) = (xs, k1)"
    by (cases "shuffle g k (list_objs h2 ! receivers)")
  let ?h3 = "h2\<lparr>list_objs := (list_objs h2)[receivers := xs]\<rparr>"
  from deepcopy_frame[OF c1] obtain n1 gs where
    f1: "givers = length (list_objs h)" "dict_objs h1 = dict_objs h @ n1" "list_objs h1 = list_objs h @ [gs]" by blast
  from deepcopy_frame[OF c2] obtain n2 rs where
    f2: "receivers = length (list_objs h1)" "dict_objs h2 = dict_objs h1 @ n2" "list_objs h2 = list_objs h1 @ [rs]" by blast
  from assms c1 c2 sh obtain out where
    pl: "pair_loop_h g k1 ?h3 (list_objs h2 ! givers) receivers [] = Some (out, h', k')"
    by (auto simp: solve_h_def split: option.splits sum.splits prod.splits)
  from pair_loop_h_frame[OF pl] have
    f4: "dict_objs h' = dict_objs ?h3" "take receivers (list_objs h') = take receivers (list_objs ?h3)" by simp_all
  have d: "dict_objs h' = dict_objs h @ (n1 @ n2)" using f4(1) f2(2) f1(2) by simp
  have "take receivers (list_objs ?h3) = list_objs h @ [gs]" using f2(1,3) f1(3) by simp
  with f4(2) have "take receivers (list_objs h') = list_objs h @ [gs]" by simp
  then have "take (length (list_objs h)) (take receivers (list_objs h')) = list_objs h" by simp
  moreover have "length (list_objs h) \<le> receivers" using f2(1) f1(3) by simp
  ultimately have l: "take (length (list_objs h)) (list_objs h') = list_objs h" by (simp add: min_def)
  from d l show ?thesis by (simp add: unchanged_def)
qed

text \<open>
  C8. When \<^verbatim>\<open>solve\<close> ends, whether it returns or raises, every object that was in the store
  before the call is unchanged: the caller's participant list holds the same addresses, and
  each dictionary in it has the same contents. All writes of \<^verbatim>\<open>solve\<close> go to the two copies
  it allocates.
\<close>

theorem solve_h_frame:
  assumes "wf_heap h p" and "solve_h g k h p = Some (res, h', k')"
  shows "unchanged h h' \<and> list_objs h' ! p = list_objs h ! p \<and>
         deref h' (list_objs h' ! p) = deref h (list_objs h ! p)"
proof -
  from solve_h_unchanged[OF assms(2)] have
    u: "unchanged h h'" and
    d: "take (length (dict_objs h)) (dict_objs h') = dict_objs h" and
    l: "take (length (list_objs h)) (list_objs h') = list_objs h"
    by (simp_all add: unchanged_def)
  from assms(1) have p: "p < length (list_objs h)" and
    rs: "\<forall>r \<in> set (list_objs h ! p). r < length (dict_objs h)"
    by (simp_all add: wf_heap_def list_all_iff)
  have "list_objs h' ! p = take (length (list_objs h)) (list_objs h') ! p" using p by simp
  then have lp: "list_objs h' ! p = list_objs h ! p" by (simp only: l)
  have "dict_objs h' ! r = dict_objs h ! r" if "r \<in> set (list_objs h ! p)" for r
  proof -
    from rs that have "r < length (dict_objs h)" by blast
    then have "dict_objs h' ! r = take (length (dict_objs h)) (dict_objs h') ! r" by simp
    then show ?thesis by (simp only: d)
  qed
  then have "deref h' (list_objs h ! p) = deref h (list_objs h ! p)" by (simp add: deref_def)
  with u lp show ?thesis by simp
qed

theorem solve_h_frame_witness:
  "wf_heap heap0 0 \<and>
   map_option fst (solve_h dead_end_rng 0 heap0 0) =
     Some (Inl (DeadEndException ''Hit a dead-end while solving'')) \<and>
   map_option (\<lambda>r. deref (fst (snd r)) (list_objs (fst (snd r)) ! 0)) (solve_h dead_end_rng 0 heap0 0) =
     Some [alice, bob, carol]"
proof -
  have w: "wf_heap heap0 0" by code_simp
  have e: "map_option fst (solve_h dead_end_rng 0 heap0 0) =
     Some (Inl (DeadEndException ''Hit a dead-end while solving''))" by code_simp
  then obtain h' k' where s: "solve_h dead_end_rng 0 heap0 0 =
     Some (Inl (DeadEndException ''Hit a dead-end while solving''), h', k')" by auto
  have "deref heap0 (list_objs heap0 ! 0) = [alice, bob, carol]" by (simp add: deref_def heap0_def)
  moreover from solve_h_frame[OF w s] have
    "deref h' (list_objs h' ! 0) = deref heap0 (list_objs heap0 ! 0)" by blast
  ultimately have "deref h' (list_objs h' ! 0) = [alice, bob, carol]" by (simp only:)
  with s w e show ?thesis by simp
qed

subsection \<open>The deep copies\<close>

lemma in_store_iff: "in_store h rs \<longleftrightarrow> (\<forall>r \<in> set rs. r < length (dict_objs h))"
  by (simp add: in_store_def list_all_iff)

lemma memo_okD:
  assumes "memo_ok h memo" and "map_of memo a = Some b"
  shows "a < length (dict_objs h) \<and> b < length (dict_objs h) \<and> dict_objs h ! b = dict_objs h ! a"
proof -
  from assms(2) have "(a, b) \<in> set memo" by (rule map_of_SomeD)
  with assms(1) show ?thesis by (auto simp: memo_ok_def list_all_iff)
qed

lemma deref_append_store:
  assumes "in_store h rs" and "dict_objs h' = dict_objs h @ new"
  shows "deref h' rs = deref h rs \<and> in_store h' rs"
  using assms by (auto simp: deref_def in_store_iff nth_append)

lemma memo_ok_step:
  assumes "memo_ok h memo" and "r < length (dict_objs h)"
  shows "memo_ok (h\<lparr>dict_objs := dict_objs h @ [dict_objs h ! r]\<rparr>) ((r, length (dict_objs h)) # memo)"
  using assms by (auto simp: memo_ok_def list_all_iff nth_append)

lemma deepcopy_elems_copy:
  "deepcopy_elems h memo rs = (rs', h', memo') \<Longrightarrow> in_store h rs \<Longrightarrow> memo_ok h memo \<Longrightarrow>
   deref h' rs' = deref h rs \<and> in_store h' rs'"
proof (induction rs arbitrary: h memo rs' h' memo')
  case Nil
  then show ?case by (simp add: deref_def in_store_iff)
next
  case (Cons r rs)
  from Cons.prems(2) have r: "r < length (dict_objs h)" and rs: "in_store h rs"
    by (simp_all add: in_store_iff)
  show ?case
  proof (cases "map_of memo r")
    case (Some r')
    obtain a b c where e: "deepcopy_elems h memo rs = (a, b, c)" by (cases "deepcopy_elems h memo rs")
    with Cons.prems(1) Some have eq: "rs' = r' # a" "h' = b" by simp_all
    from Cons.IH[OF e rs Cons.prems(3)] have ih: "deref b a = deref h rs" "in_store b a" by simp_all
    have r': "r' < length (dict_objs h)" "dict_objs h ! r' = dict_objs h ! r"
      using memo_okD[OF Cons.prems(3) Some] by simp_all
    from deepcopy_elems_frame[OF e] obtain new where n: "dict_objs b = dict_objs h @ new" by blast
    have "dict_objs b ! r' = dict_objs h ! r" using n r' by (simp add: nth_append)
    moreover have "r' < length (dict_objs b)" using n r'(1) by simp
    ultimately show ?thesis using ih eq by (simp add: deref_def in_store_iff)
  next
    case None
    let ?n = "length (dict_objs h)"
    let ?h = "h\<lparr>dict_objs := dict_objs h @ [dict_objs h ! r]\<rparr>"
    let ?memo = "(r, ?n) # memo"
    obtain a b c where e: "deepcopy_elems ?h ?memo rs = (a, b, c)"
      by (cases "deepcopy_elems ?h ?memo rs")
    with Cons.prems(1) None have eq: "rs' = ?n # a" "h' = b" by simp_all
    have ex: "dict_objs ?h = dict_objs h @ [dict_objs h ! r]" by simp
    from deref_append_store[OF rs ex] have rs': "deref ?h rs = deref h rs" "in_store ?h rs" by simp_all
    from Cons.IH[OF e rs'(2) memo_ok_step[OF Cons.prems(3) r]] rs'(1)
    have ih: "deref b a = deref h rs" "in_store b a" by simp_all
    from deepcopy_elems_frame[OF e] obtain new where n: "dict_objs b = dict_objs ?h @ new" by blast
    have "dict_objs b ! ?n = dict_objs h ! r" using n by (simp add: nth_append)
    moreover have "?n < length (dict_objs b)" using n by simp
    ultimately show ?thesis using ih eq by (simp add: deref_def in_store_iff)
  qed
qed

lemma deepcopy_copy:
  assumes "deepcopy h p = (r, h')" and "wf_heap h p"
  shows "r = length (list_objs h) \<and> length (list_objs h') = Suc (length (list_objs h)) \<and>
         take (length (list_objs h)) (list_objs h') = list_objs h \<and>
         (\<exists>new. dict_objs h' = dict_objs h @ new) \<and>
         deref h' (list_objs h' ! r) = deref h (list_objs h ! p) \<and>
         in_store h' (list_objs h' ! r)"
proof -
  obtain a b c where e: "deepcopy_elems h [] (list_objs h ! p) = (a, b, c)"
    by (cases "deepcopy_elems h [] (list_objs h ! p)")
  from assms(2) have s: "in_store h (list_objs h ! p)"
    by (simp add: wf_heap_def in_store_iff list_all_iff)
  have m: "memo_ok h []" by (simp add: memo_ok_def)
  from deepcopy_elems_copy[OF e s m] have c: "deref b a = deref h (list_objs h ! p)" "in_store b a"
    by simp_all
  from deepcopy_elems_frame[OF e] obtain new where
    b: "list_objs b = list_objs h" "dict_objs b = dict_objs h @ new" by blast
  from assms(1) e have r: "r = length (list_objs b)" "h' = b\<lparr>list_objs := list_objs b @ [a]\<rparr>"
    by (simp_all add: deepcopy_def)
  have 1: "r = length (list_objs h)" using r(1) b(1) by simp
  have 2: "list_objs h' = list_objs h @ [a]" using r(2) b(1) by simp
  have 3: "dict_objs h' = dict_objs h @ new" using r(2) b(2) by simp
  have 4: "list_objs h' ! r = a" using 1 2 by simp
  have 5: "deref h' a = deref b a \<and> in_store h' a" using r(2) c(2) by (simp add: deref_def in_store_iff)
  from 1 2 3 4 5 c(1) show ?thesis by auto
qed

subsection \<open>The draw loop on the store\<close>

lemma choice_map:
  "choice g k (map f xs) = (case choice g k xs of (res, k') \<Rightarrow> (map_sum id f res, k'))"
  by (cases "xs = []") (simp_all add: choice_def randbelow_def)

lemma draw_loop_h_sound:
  assumes "draw_loop_h g k h gv r = Some y"
  shows "draw_loop g k (dict_objs h ! gv) (deref h (list_objs h ! r)) =
           Some (map_sum id (\<lambda>x. dict_objs h ! x) (fst y), snd y) \<and>
         (\<forall>x. fst y = Inr x \<longrightarrow> x \<in> set (list_objs h ! r))"
proof (rule draw_loop_h.raw_induct[where P = "\<lambda>g k h gv r y.
    draw_loop g k (dict_objs h ! gv) (deref h (list_objs h ! r)) =
      Some (map_sum id (\<lambda>x. dict_objs h ! x) (fst y), snd y) \<and>
    (\<forall>x. fst y = Inr x \<longrightarrow> x \<in> set (list_objs h ! r))", OF _ assms], goal_cases)
  case (1 loop g k h gv r y)
  let ?xs = "list_objs h ! r"
  show ?case
  proof (cases "?xs = []")
    case True
    with 1(2) have "y = (Inl IndexError, k)" by (simp add: choice_def)
    with True show ?thesis by (subst draw_loop.simps) (simp add: choice_def deref_def)
  next
    case False
    let ?i = "g k mod length ?xs"
    let ?x = "?xs ! ?i"
    have i: "?i < length ?xs" using False by simp
    have c: "choice g k ?xs = (Inr ?x, Suc k)" using False by (simp add: choice_def randbelow_def)
    have c': "choice g k (deref h ?xs) = (Inr (dict_objs h ! ?x), Suc k)"
      using False i by (simp add: choice_def randbelow_def deref_def)
    have len: "length (deref h ?xs) = length ?xs" by (simp add: deref_def)
    have body: "(if dict_objs h ! ?x = dict_objs h ! gv then
                   if length ?xs = 1
                   then Some (Inl (DeadEndException ''Hit a dead-end while solving''), Suc k)
                   else loop g (Suc k) h gv r
                 else Some (Inr ?x, Suc k)) = Some y"
      using 1(2) unfolding c by simp
    show ?thesis
    proof (cases "dict_objs h ! ?x = dict_objs h ! gv \<and> length ?xs \<noteq> 1")
      case True
      with body have "loop g (Suc k) h gv r = Some y" by simp
      from 1(1)[OF this] True show ?thesis
        by (subst draw_loop.simps) (simp add: c' len)
    next
      case stop: False
      with body have y: "y = (if dict_objs h ! ?x = dict_objs h ! gv
                             then (Inl (DeadEndException ''Hit a dead-end while solving''), Suc k)
                             else (Inr ?x, Suc k))"
        by (simp split: if_splits)
      with stop i show ?thesis
        by (subst draw_loop.simps) (auto simp: c' len)
    qed
  qed
qed

lemma draw_loop_h_complete:
  assumes "draw_loop g k giver receivers = Some z"
  shows "\<forall>h gv r. giver = dict_objs h ! gv \<and> receivers = deref h (list_objs h ! r) \<longrightarrow>
           (\<exists>y. draw_loop_h g k h gv r = Some y)"
proof (rule draw_loop.raw_induct[where P = "\<lambda>g k giver receivers z.
    \<forall>h gv r. giver = dict_objs h ! gv \<and> receivers = deref h (list_objs h ! r) \<longrightarrow>
           (\<exists>y. draw_loop_h g k h gv r = Some y)", OF _ assms], goal_cases)
  case (1 loop g k giver receivers z)
  show ?case
  proof (intro allI impI)
    fix h gv r
    assume a: "giver = dict_objs h ! gv \<and> receivers = deref h (list_objs h ! r)"
    let ?xs = "list_objs h ! r"
    show "\<exists>y. draw_loop_h g k h gv r = Some y"
    proof (cases "?xs = []")
      case True
      then show ?thesis by (subst draw_loop_h.simps) (simp add: choice_def)
    next
      case False
      let ?i = "g k mod length ?xs"
      let ?x = "?xs ! ?i"
      have i: "?i < length ?xs" using False by simp
      have c: "choice g k ?xs = (Inr ?x, Suc k)" using False by (simp add: choice_def randbelow_def)
      have c': "choice g k receivers = (Inr (dict_objs h ! ?x), Suc k)"
        using False i a by (simp add: choice_def randbelow_def deref_def)
      have len: "length receivers = length ?xs" using a by (simp add: deref_def)
      have body: "(if dict_objs h ! ?x = giver then
                     if length receivers = 1
                     then Some (Inl (DeadEndException ''Hit a dead-end while solving''), Suc k)
                     else loop g (Suc k) giver receivers
                   else Some (Inr (dict_objs h ! ?x), Suc k)) = Some z"
        using 1(2) unfolding c' by simp
      from a have g1: "giver = dict_objs h ! gv" by simp
      show ?thesis
      proof (cases "dict_objs h ! ?x = dict_objs h ! gv \<and> length ?xs \<noteq> 1")
        case True
        with body g1 len have "loop g (Suc k) giver receivers = Some z" by simp
        from 1(1)[OF this] a obtain y where "draw_loop_h g (Suc k) h gv r = Some y" by blast
        with True show ?thesis by (subst draw_loop_h.simps) (simp add: c)
      next
        case False
        then show ?thesis by (subst draw_loop_h.simps) (auto simp: c)
      qed
    qed
  qed
qed

lemma draw_loop_h_refines:
  "map_option (\<lambda>y. (map_sum id (\<lambda>x. dict_objs h ! x) (fst y), snd y)) (draw_loop_h g k h gv r) =
     draw_loop g k (dict_objs h ! gv) (deref h (list_objs h ! r))"
proof (cases "draw_loop_h g k h gv r")
  case (Some y)
  with draw_loop_h_sound[OF Some] show ?thesis by simp
next
  case None
  have "draw_loop g k (dict_objs h ! gv) (deref h (list_objs h ! r)) = None"
  proof (rule ccontr)
    assume "draw_loop g k (dict_objs h ! gv) (deref h (list_objs h ! r)) \<noteq> None"
    then obtain z where "draw_loop g k (dict_objs h ! gv) (deref h (list_objs h ! r)) = Some z"
      by blast
    from draw_loop_h_complete[OF this, rule_format, of h gv r] None show False by simp
  qed
  with None show ?thesis by simp
qed

subsection \<open>The giver loop on the store\<close>

lemma remove_h_refines:
  "map_sum id (deref h) (remove_h h v xs) = list_remove (dict_objs h ! v) (deref h xs)"
proof (induction xs)
  case Nil
  then show ?case by (simp add: list_remove_def deref_def)
next
  case (Cons x xs)
  show ?case
  proof (cases "dict_objs h ! x = dict_objs h ! v")
    case True
    then show ?thesis by (simp add: list_remove_def deref_def)
  next
    case False
    with Cons.IH show ?thesis
      by (cases "remove_h h v xs") (auto simp: list_remove_def deref_def split: if_splits)
  qed
qed

lemma shuffle_loop_map:
  "m < length xs \<or> m = 0 \<Longrightarrow>
   shuffle_loop g k (map f xs) m = (case shuffle_loop g k xs m of (ys, k') \<Rightarrow> (map f ys, k'))"
proof (induction m arbitrary: k xs)
  case 0
  then show ?case by simp
next
  case (Suc m)
  let ?j = "g k mod (Suc m + 1)"
  let ?xs = "xs[Suc m := xs ! ?j, ?j := xs ! Suc m]"
  from Suc.prems have lt: "Suc m < length xs" by simp
  have "?j < Suc m + 1" by (rule mod_less_divisor) simp
  then have j: "?j < length xs" using lt by linarith
  have up: "(map f xs)[Suc m := map f xs ! ?j, ?j := map f xs ! Suc m] = map f ?xs"
    using lt j by (simp add: map_update)
  have len: "m < length ?xs \<or> m = 0" using lt by simp
  have "shuffle_loop g k (map f xs) (Suc m) = shuffle_loop g (Suc k) (map f ?xs) m"
    by (simp only: shuffle_loop.simps randbelow_def prod.case up)
  also have "\<dots> = (case shuffle_loop g (Suc k) ?xs m of (ys, k') \<Rightarrow> (map f ys, k'))"
    by (rule Suc.IH[OF len])
  also have "shuffle_loop g (Suc k) ?xs m = shuffle_loop g k xs (Suc m)"
    by (simp only: shuffle_loop.simps randbelow_def prod.case)
  finally show ?case .
qed

lemma shuffle_map:
  "shuffle g k (map f xs) = (case shuffle g k xs of (ys, k') \<Rightarrow> (map f ys, k'))"
proof -
  have "length xs - 1 < length xs \<or> length xs - 1 = 0" by (cases xs) simp_all
  from shuffle_loop_map[OF this] show ?thesis by (simp add: shuffle_def)
qed

lemma pair_loop_h_refines:
  "r < length (list_objs h) \<Longrightarrow>
   map_option (\<lambda>y. (map_sum id (map (deref_pair h)) (fst y), snd (snd y)))
     (pair_loop_h g k h givers r pairs) =
   map_option (\<lambda>z. (map_sum id fst (fst z), snd z))
     (pair_loop g k (deref h givers) (deref h (list_objs h ! r)) (map (deref_pair h) pairs))"
proof (induction givers arbitrary: k h pairs)
  case Nil
  then show ?case by (simp add: deref_def)
next
  case (Cons giver givers)
  let ?xs = "list_objs h ! r"
  have dg: "deref h (giver # givers) = dict_objs h ! giver # deref h givers" by (simp add: deref_def)
  note d = draw_loop_h_refines[of h g k giver r]
  show ?case
  proof (cases "draw_loop_h g k h giver r")
    case None
    with d have "draw_loop g k (dict_objs h ! giver) (deref h ?xs) = None" by simp
    with None show ?thesis by (simp add: dg)
  next
    case (Some y)
    obtain r0 k1 where y: "y = (r0, k1)" by (cases y)
    show ?thesis
    proof (cases r0)
      case (Inl e)
      with d Some y have "draw_loop g k (dict_objs h ! giver) (deref h ?xs) = Some (Inl e, k1)"
        by simp
      with Some y Inl show ?thesis by (simp add: dg)
    next
      case (Inr rc)
      with d Some y have
        dl: "draw_loop g k (dict_objs h ! giver) (deref h ?xs) = Some (Inr (dict_objs h ! rc), k1)"
        by simp
      note rm = remove_h_refines[of h rc ?xs]
      show ?thesis
      proof (cases "remove_h h rc ?xs")
        case (Inl e)
        with rm have "list_remove (dict_objs h ! rc) (deref h ?xs) = Inl e" by simp
        with Some y Inr Inl dl show ?thesis by (simp add: dg)
      next
        case rmr: (Inr xs')
        let ?h = "h\<lparr>list_objs := (list_objs h)[r := xs']\<rparr>"
        from rm rmr have lr: "list_remove (dict_objs h ! rc) (deref h ?xs) = Inr (deref h xs')"
          by simp
        have r': "r < length (list_objs ?h)" using Cons.prems by simp
        have same: "deref ?h = deref h" "deref_pair ?h = deref_pair h"
          by (simp_all add: deref_def deref_pair_def fun_eq_iff)
        have at: "list_objs ?h ! r = xs'" using Cons.prems by simp
        have ih: "map_option (\<lambda>y. (map_sum id (map (deref_pair h)) (fst y), snd (snd y)))
                    (pair_loop_h g k1 ?h givers r (pairs @ [(giver, rc)])) =
                  map_option (\<lambda>z. (map_sum id fst (fst z), snd z))
                    (pair_loop g k1 (deref h givers) (deref h xs')
                       (map (deref_pair h) (pairs @ [(giver, rc)])))"
          using Cons.IH[OF r', of k1 "pairs @ [(giver, rc)]"] by (simp only: same at)
        have l: "pair_loop_h g k h (giver # givers) r pairs =
                 pair_loop_h g k1 ?h givers r (pairs @ [(giver, rc)])"
          using Some y Inr rmr by simp
        have rr: "pair_loop g k (deref h (giver # givers)) (deref h ?xs) (map (deref_pair h) pairs) =
                  pair_loop g k1 (deref h givers) (deref h xs')
                    (map (deref_pair h) (pairs @ [(giver, rc)]))"
          using dl lr by (simp add: dg deref_pair_def)
        show ?thesis by (simp only: l rr ih)
      qed
    qed
  qed
qed

subsection \<open>The store embedding and the value embedding\<close>

lemma solve_unfold:
  assumes "shuffle g k S = (recv, k1)"
  shows "solve g k S =
     (case pair_loop g k1 S recv [] of
        None \<Rightarrow> None
      | Some (Inl e, k2) \<Rightarrow> Some (Inl e, k2)
      | Some (Inr (pairs, rest), k2) \<Rightarrow>
          (case paranoia_test S pairs of
             Some e \<Rightarrow> Some (Inl e, k2)
           | None \<Rightarrow> Some (Inr pairs, k2)))"
  using assms by (simp add: solve_def)

text \<open>
  The two embeddings agree: on a well-formed store, \<^verbatim>\<open>solve\<close> on the store ends exactly when
  \<^verbatim>\<open>solve\<close> on the participants' values ends, with the same exception or with pairs of
  addresses whose dictionaries are the pairs of values, and at the same cursor.
\<close>

theorem solve_h_refines:
  assumes "wf_heap h p"
  shows "map_option abs_result (solve_h g k h p) = solve g k (deref h (list_objs h ! p))"
proof -
  let ?S = "deref h (list_objs h ! p)"
  from assms have p: "p < length (list_objs h)" and ps: "in_store h (list_objs h ! p)"
    by (simp_all add: wf_heap_def in_store_iff list_all_iff)
  obtain givers h1 where c1: "deepcopy h p = (givers, h1)" by (cases "deepcopy h p")
  from deepcopy_copy[OF c1 assms] obtain n1 where
    g: "givers = length (list_objs h)" "length (list_objs h1) = Suc (length (list_objs h))"
       "take (length (list_objs h)) (list_objs h1) = list_objs h"
       "dict_objs h1 = dict_objs h @ n1"
       "deref h1 (list_objs h1 ! givers) = ?S" "in_store h1 (list_objs h1 ! givers)"
    by blast
  have p1: "list_objs h1 ! p = list_objs h ! p"
  proof -
    have "list_objs h1 ! p = take (length (list_objs h)) (list_objs h1) ! p" using p by simp
    then show ?thesis by (simp only: g(3))
  qed
  from deref_append_store[OF ps g(4)] have
    s1: "deref h1 (list_objs h ! p) = ?S" "in_store h1 (list_objs h ! p)" by simp_all
  have wf1: "wf_heap h1 p" using p g(2) s1(2) p1 by (simp add: wf_heap_def in_store_iff list_all_iff)
  obtain receivers h2 where c2: "deepcopy h1 p = (receivers, h2)" by (cases "deepcopy h1 p")
  from deepcopy_copy[OF c2 wf1] obtain n2 where
    r: "receivers = length (list_objs h1)" "length (list_objs h2) = Suc (length (list_objs h1))"
       "take (length (list_objs h1)) (list_objs h2) = list_objs h1"
       "dict_objs h2 = dict_objs h1 @ n2"
       "deref h2 (list_objs h2 ! receivers) = deref h1 (list_objs h1 ! p)"
       "in_store h2 (list_objs h2 ! receivers)"
    by blast
  have old2: "list_objs h2 ! a = list_objs h1 ! a" if "a < length (list_objs h1)" for a
  proof -
    have "list_objs h2 ! a = take (length (list_objs h1)) (list_objs h2) ! a" using that by simp
    then show ?thesis by (simp only: r(3))
  qed
  let ?gs = "list_objs h2 ! givers"
  let ?rs = "list_objs h2 ! receivers"
  have gs: "?gs = list_objs h1 ! givers" using old2[of givers] g(1,2) by simp
  have p2: "list_objs h2 ! p = list_objs h ! p" using old2[of p] p g(2) p1 by simp
  from deref_append_store[OF g(6) r(4)] g(5) gs have dgs: "deref h2 ?gs = ?S" by simp
  from deref_append_store[OF s1(2) r(4)] s1(1) have dp2: "deref h2 (list_objs h ! p) = ?S" by simp
  have drs: "deref h2 ?rs = ?S" using r(5) p1 s1(1) by simp
  obtain xs k1 where sh: "shuffle g k ?rs = (xs, k1)" by (cases "shuffle g k ?rs")
  have "shuffle g k (deref h2 ?rs) = (deref h2 xs, k1)"
    unfolding deref_def using sh by (simp add: shuffle_map)
  then have sh': "shuffle g k ?S = (deref h2 xs, k1)" by (simp only: drs)
  let ?h3 = "h2\<lparr>list_objs := (list_objs h2)[receivers := xs]\<rparr>"
  have rlt: "receivers < length (list_objs ?h3)" using r(1,2) by simp
  have d3: "deref ?h3 = deref h2" "deref_pair ?h3 = deref_pair h2"
    by (simp_all add: deref_def deref_pair_def fun_eq_iff)
  have at3: "list_objs ?h3 ! receivers = xs" using r(1,2) by simp
  have pl: "map_option (\<lambda>y. (map_sum id (map (deref_pair h2)) (fst y), snd (snd y)))
              (pair_loop_h g k1 ?h3 ?gs receivers []) =
            map_option (\<lambda>z. (map_sum id fst (fst z), snd z))
              (pair_loop g k1 ?S (deref h2 xs) [])"
  proof -
    have at3': "(list_objs h2)[receivers := xs] ! receivers = xs" using r(1,2) by simp
    from pair_loop_h_refines[OF rlt, of g k1 ?gs "[]"] show ?thesis
      by (simp add: d3 at3' dgs)
  qed
  have sv: "solve_h g k h p =
     (case pair_loop_h g k1 ?h3 ?gs receivers [] of
        None \<Rightarrow> None
      | Some (Inl e, h4, k2) \<Rightarrow> Some (Inl e, h4, k2)
      | Some (Inr pairs, h4, k2) \<Rightarrow>
          (case paranoia_test (deref h4 (list_objs h4 ! p)) (map (deref_pair h4) pairs) of
             Some e \<Rightarrow> Some (Inl e, h4, k2)
           | None \<Rightarrow> Some (Inr pairs, h4, k2)))"
    using c1 c2 sh by (simp add: solve_h_def)
  note sv' = solve_unfold[OF sh']
  show ?thesis
  proof (cases "pair_loop_h g k1 ?h3 ?gs receivers []")
    case None
    with pl have "pair_loop g k1 ?S (deref h2 xs) [] = None" by simp
    with None sv sv' show ?thesis by simp
  next
    case (Some y)
    obtain res h4 k2 where y: "y = (res, h4, k2)" by (cases y)
    with Some have plh: "pair_loop_h g k1 ?h3 ?gs receivers [] = Some (res, h4, k2)" by simp
    from pair_loop_h_frame[OF plh] have
      f: "dict_objs h4 = dict_objs h2" "take receivers (list_objs h4) = take receivers (list_objs ?h3)"
      by simp_all
    have "p < receivers" using p g(2) r(1) by simp
    then have "list_objs h4 ! p = take receivers (list_objs h4) ! p" by simp
    also have "\<dots> = take receivers (list_objs ?h3) ! p" by (simp only: f(2))
    also have "\<dots> = list_objs ?h3 ! p" using \<open>p < receivers\<close> by simp
    also have "\<dots> = list_objs h ! p" using \<open>p < receivers\<close> p2 by simp
    finally have p4: "list_objs h4 ! p = list_objs h ! p" .
    have d4: "deref h4 = deref h2" "deref_pair h4 = deref_pair h2"
      using f(1) by (simp_all add: deref_def deref_pair_def fun_eq_iff)
    have S4: "deref h4 (list_objs h4 ! p) = ?S" by (simp only: p4 d4 dp2)
    from pl plh have
      m: "map_option (\<lambda>z. (map_sum id fst (fst z), snd z)) (pair_loop g k1 ?S (deref h2 xs) []) =
          Some (map_sum id (map (deref_pair h2)) res, k2)"
      by simp
    then obtain z where z1: "pair_loop g k1 ?S (deref h2 xs) [] = Some z"
      by (cases "pair_loop g k1 ?S (deref h2 xs) []") simp_all
    with m have z: "pair_loop g k1 ?S (deref h2 xs) [] = Some z"
         "map_sum id fst (fst z) = map_sum id (map (deref_pair h2)) res" "snd z = k2"
      by simp_all
    obtain res' where z': "z = (res', k2)" using z(3) by (cases z) simp
    show ?thesis
    proof (cases res)
      case (Inl e)
      with z(2) z' have "res' = Inl e" by (cases res') simp_all
      with z(1) z' plh Inl sv sv' show ?thesis by (simp add: abs_result_def)
    next
      case (Inr pairs)
      with z(2) z' obtain rest where res': "res' = Inr (map (deref_pair h2) pairs, rest)"
        by (cases res') auto
      have svh: "solve_h g k h p =
        (case paranoia_test ?S (map (deref_pair h2) pairs) of
           Some e \<Rightarrow> Some (Inl e, h4, k2)
         | None \<Rightarrow> Some (Inr pairs, h4, k2))"
        using sv plh Inr by (simp add: d4 p4 dp2)
      have svp: "solve g k ?S =
        (case paranoia_test ?S (map (deref_pair h2) pairs) of
           Some e \<Rightarrow> Some (Inl e, k2)
         | None \<Rightarrow> Some (Inr (map (deref_pair h2) pairs), k2))"
        using sv' z(1) z' res' by simp
      show ?thesis unfolding svh svp
        by (cases "paranoia_test ?S (map (deref_pair h2) pairs)") (simp_all add: abs_result_def d4)
    qed
  qed
qed

end
